theory Spec2Isabelle
  imports Main "HOL-Library.Sublist" "HOL-Library.Extended_Nat"
begin

section \<open>Python values\<close>

text \<open>
  The segmenter (\<^verbatim>\<open>backend/segmentation.py\<close>) works on Python \<^verbatim>\<open>str\<close> values.
  A \<^verbatim>\<open>str\<close> is modelled as a \<^typ>\<open>string\<close>; a \<^typ>\<open>char\<close> stands for the code point
  of the same number (0 to 255).  The character classes below are the ones Python uses
  for these code points.  Exceptions are values of \<open>py_error\<close>.
\<close>

datatype py_error = ValueError | IndexError

text \<open>\<^verbatim>\<open>str.isspace\<close>, which is also the class \<^verbatim>\<open>\s\<close> of \<^verbatim>\<open>re\<close> on \<^verbatim>\<open>str\<close> patterns.\<close>

definition is_space :: "char \<Rightarrow> bool" where
  "is_space c = (c \<in> set [CHR 0x09, CHR 0x0A, CHR 0x0B, CHR 0x0C, CHR 0x0D,
                             CHR 0x1C, CHR 0x1D, CHR 0x1E, CHR 0x1F, CHR 0x20,
                             CHR 0x85, CHR 0xA0])"

text \<open>The class \<^verbatim>\<open>\d\<close> (decimal digits).\<close>

definition is_digit :: "char \<Rightarrow> bool" where
  "is_digit c = (c \<in> set ''0123456789'')"

text \<open>The range \<^verbatim>\<open>[A-Z]\<close>.\<close>

definition is_AZ :: "char \<Rightarrow> bool" where
  "is_AZ c = (c \<in> set ''ABCDEFGHIJKLMNOPQRSTUVWXYZ'')"

definition is_az :: "char \<Rightarrow> bool" where
  "is_az c = (c \<in> set ''abcdefghijklmnopqrstuvwxyz'')"

text \<open>
  The class \<^verbatim>\<open>\w\<close>: alphanumeric code points and the underscore.  Above 127 these are
  the letters and the numeric signs of Latin-1.
\<close>

definition is_word :: "char \<Rightarrow> bool" where
  "is_word c = (is_digit c \<or> is_AZ c \<or> is_az c \<or> c = CHR ''_'' \<or>
     (let n = (of_char c :: nat) in
        n \<in> set [0xAA, 0xB2, 0xB3, 0xB5, 0xB9, 0xBA, 0xBC, 0xBD, 0xBE] \<or>
        (0xC0 \<le> n \<and> n \<le> 0xD6) \<or> (0xD8 \<le> n \<and> n \<le> 0xF6) \<or> 0xF8 \<le> n))"

text \<open>\<^verbatim>\<open>str.isupper\<close> on one character.\<close>

definition py_isupper :: "char \<Rightarrow> bool" where
  "py_isupper c = (is_AZ c \<or>
     (let n = (of_char c :: nat) in (0xC0 \<le> n \<and> n \<le> 0xD6) \<or> (0xD8 \<le> n \<and> n \<le> 0xDE)))"

text \<open>\<^verbatim>\<open>str.lstrip()\<close>, \<^verbatim>\<open>str.rstrip()\<close>, \<^verbatim>\<open>str.strip()\<close>.\<close>

definition lstrip :: "string \<Rightarrow> string" where
  "lstrip s = dropWhile is_space s"

definition rstrip :: "string \<Rightarrow> string" where
  "rstrip s = rev (dropWhile is_space (rev s))"

definition strip :: "string \<Rightarrow> string" where
  "strip s = lstrip (rstrip s)"

text \<open>\<^verbatim>\<open>s.split(c)\<close> for a separator of one character: never the empty list.\<close>

fun split_chr :: "char \<Rightarrow> string \<Rightarrow> string list" where
  "split_chr c [] = [[]]"
| "split_chr c (x # xs) =
     (if x = c then [] # split_chr c xs
      else (case split_chr c xs of [] \<Rightarrow> [[x]] | y # ys \<Rightarrow> (x # y) # ys))"

text \<open>\<^verbatim>\<open>sep.join(xs)\<close>.\<close>

fun join :: "string \<Rightarrow> string list \<Rightarrow> string" where
  "join sep [] = []"
| "join sep [x] = x"
| "join sep (x # y # ys) = x @ sep @ join sep (y # ys)"

text \<open>\<^verbatim>\<open>s.startswith(p)\<close>.\<close>

definition startswith :: "string \<Rightarrow> string \<Rightarrow> bool" where
  "startswith s p = (take (length p) s = p)"

text \<open>\<^verbatim>\<open>s.find(sub)\<close>: the least index where \<open>sub\<close> occurs, \<open>None\<close> for \<^verbatim>\<open>-1\<close>.\<close>

fun find_from :: "string \<Rightarrow> string \<Rightarrow> nat \<Rightarrow> nat option" where
  "find_from sub [] i = (if sub = [] then Some i else None)"
| "find_from sub (x # xs) i =
     (if startswith (x # xs) sub then Some i else find_from sub xs (Suc i))"

definition py_find :: "string \<Rightarrow> string \<Rightarrow> nat option" where
  "py_find s sub = find_from sub s 0"

text \<open>The slice \<^verbatim>\<open>s[a:b]\<close> for \<open>0 \<le> a\<close>, \<open>0 \<le> b\<close>.\<close>

definition slice :: "'a list \<Rightarrow> nat \<Rightarrow> nat \<Rightarrow> 'a list" where
  "slice s a b = take (b - a) (drop a s)"

subsection \<open>Integers and their decimal strings\<close>

definition digit_chr :: "nat \<Rightarrow> char" where
  "digit_chr n = ''0123456789'' ! n"

definition digit_val :: "char \<Rightarrow> nat" where
  "digit_val c = length (takeWhile (\<lambda>d. d \<noteq> c) ''0123456789'')"

definition nat_of_digits :: "string \<Rightarrow> nat" where
  "nat_of_digits ds = foldl (\<lambda>a c. 10 * a + digit_val c) 0 ds"

function str_nat :: "nat \<Rightarrow> string" where
  "str_nat n = (if n < 10 then [digit_chr n] else str_nat (n div 10) @ [digit_chr (n mod 10)])"
  by pat_completeness auto
termination
  by (relation "measure id") auto

declare str_nat.simps [simp del]

text \<open>\<^verbatim>\<open>str(i)\<close> for an \<^verbatim>\<open>int\<close>.\<close>

definition py_str :: "int \<Rightarrow> string" where
  "py_str i = (if i < 0 then CHR ''-'' # str_nat (nat (- i)) else str_nat (nat i))"

text \<open>
  \<^verbatim>\<open>int(s)\<close> for a \<^verbatim>\<open>str\<close>: surrounding whitespace is dropped, one sign is allowed, then
  digits, with single underscores allowed between digits.  \<open>None\<close> is \<^verbatim>\<open>ValueError\<close>.
  (The interpreter's limit on the number of digits of a converted string is not modelled.)
\<close>

fun digits_ok :: "bool \<Rightarrow> string \<Rightarrow> bool" where
  "digits_ok after_digit [] = after_digit"
| "digits_ok after_digit (c # cs) =
     (if is_digit c then digits_ok True cs
      else if c = CHR ''_'' \<and> after_digit then digits_ok False cs
      else False)"

definition py_int :: "string \<Rightarrow> int option" where
  "py_int s =
     (let t = strip s;
          neg = (t \<noteq> [] \<and> hd t = CHR ''-'');
          body = (if t \<noteq> [] \<and> (hd t = CHR ''-'' \<or> hd t = CHR ''+'') then tl t else t)
      in if digits_ok False body
         then Some ((if neg then - 1 else 1) * int (nat_of_digits (filter is_digit body)))
         else None)"

section \<open>Column-dump serial inference\<close>

text \<open>\<^verbatim>\<open>prev_inline or 0\<close>.\<close>

definition or0 :: "int option \<Rightarrow> int" where
  "or0 p = (case p of None \<Rightarrow> 0 | Some v \<Rightarrow> v)"

text \<open>\<^verbatim>\<open>range(a, b)\<close>.\<close>

definition py_range :: "int \<Rightarrow> int \<Rightarrow> int list" where
  "py_range a b = [a..b - 1]"

text \<open>\<^verbatim>\<open>s.split('.')[0]\<close>.\<close>

definition main_part :: "string \<Rightarrow> string" where
  "main_part s = hd (split_chr CHR ''.'' s)"

text \<open>
  The loop \<^verbatim>\<open>while len(complete) < n_blocks: last_main += 1; complete.append(str(last_main))\<close>.
\<close>

function extend_serials :: "string list \<Rightarrow> int \<Rightarrow> nat \<Rightarrow> string list" where
  "extend_serials cmpl last_main n_blocks =
     (if length cmpl < n_blocks
      then extend_serials (cmpl @ [py_str (last_main + 1)]) (last_main + 1) n_blocks
      else cmpl)"
  by pat_completeness auto
termination
  by (relation "measure (\<lambda>(cmpl, last_main, n_blocks). n_blocks - length cmpl)") auto

declare extend_serials.simps [simp del]

text \<open>
  \<^verbatim>\<open>_infer_serials(prev_inline, found_standalones, n_blocks)\<close>.  \<open>n_blocks\<close> is the
  number of case-type blocks of the zone, a length.
\<close>

definition infer_serials :: "int option \<Rightarrow> string list \<Rightarrow> nat \<Rightarrow> py_error + string list" where
  "infer_serials prev_inline found_standalones n_blocks =
     (if found_standalones = [] then
        (let start = or0 prev_inline + 1
         in Inr (map py_str (py_range start (start + int n_blocks))))
      else
        (case those (map (\<lambda>s. py_int (main_part s)) found_standalones) of
           None \<Rightarrow> Inl ValueError
         | Some mains \<Rightarrow>
            (let first_main = min_list mains;
                 start = or0 prev_inline + 1;
                 gap = map py_str (py_range start first_main);
                 cmpl = gap @ found_standalones
             in case (if cmpl \<noteq> [] then py_int (main_part (last cmpl))
                      else Some (or0 prev_inline)) of
                  None \<Rightarrow> Inl ValueError
                | Some last_main \<Rightarrow>
                    Inr (take n_blocks (extend_serials cmpl last_main n_blocks)))))"



section \<open>Regular expressions\<close>

text \<open>
  The patterns of the module are terms of \<open>rx\<close>, matched the way Python's \<^verbatim>\<open>re\<close> does:
  by backtracking, alternatives from left to right, repetitions greedy.  A matcher state
  is the character before the current position (\<open>None\<close> at position 0), the text from
  the current position on, and the groups captured so far (the latest capture of a group
  first).  \<open>ms r s\<close> lists the states in which a match of \<open>r\<close> from \<open>s\<close> can end, in the
  order in which backtracking tries them: a match succeeds at the first.
\<close>

type_synonym mstate = "char option \<times> string \<times> (nat \<times> string) list"

datatype rx =
    Lit string                  \<comment> \<open>literal characters\<close>
  | Cls "char \<Rightarrow> bool"          \<comment> \<open>one character of a class\<close>
  | Seq rx rx
  | Alt rx rx                   \<comment> \<open>\<^verbatim>\<open>a|b\<close>\<close>
  | Rep nat "nat option" rx     \<comment> \<open>greedy \<^verbatim>\<open>r{lo,hi}\<close>; \<open>None\<close> is no upper bound\<close>
  | Grp nat rx                  \<comment> \<open>capturing group\<close>
  | Bol                         \<comment> \<open>\<^verbatim>\<open>^\<close>\<close>
  | BolM                        \<comment> \<open>\<^verbatim>\<open>^\<close> under \<^verbatim>\<open>re.MULTILINE\<close>\<close>
  | Eol                         \<comment> \<open>\<^verbatim>\<open>$\<close>\<close>
  | EolM                        \<comment> \<open>\<^verbatim>\<open>$\<close> under \<^verbatim>\<open>re.MULTILINE\<close>\<close>
  | WordB                       \<comment> \<open>\<^verbatim>\<open>\b\<close>\<close>
  | Look rx                     \<comment> \<open>\<^verbatim>\<open>(?=r)\<close>\<close>
  | NLook rx                    \<comment> \<open>\<^verbatim>\<open>(?!r)\<close>\<close>

definition st_rest :: "mstate \<Rightarrow> string" where
  "st_rest s = fst (snd s)"

definition is_word_opt :: "char option \<Rightarrow> bool" where
  "is_word_opt p = (case p of None \<Rightarrow> False | Some c \<Rightarrow> is_word c)"

text \<open>
  Greedy repetition of a matcher \<open>f\<close>: one more round first, then stopping here.  A round
  must consume text (the repeated patterns of the module all do); \<open>fuel\<close> is the length of
  the text left when the repetition starts, which bounds the number of rounds.
\<close>

fun rep_iter :: "(mstate \<Rightarrow> mstate list) \<Rightarrow> nat \<Rightarrow> nat option \<Rightarrow> nat \<Rightarrow> mstate \<Rightarrow> mstate list" where
  "rep_iter f lo hi 0 s = (if lo = 0 then [s] else [])"
| "rep_iter f lo hi (Suc fuel) s =
     (if hi = Some 0 then []
      else concat (map (rep_iter f (lo - 1) (map_option (\<lambda>h. h - 1) hi) fuel)
                       (filter (\<lambda>s'. length (st_rest s') < length (st_rest s)) (f s))))
     @ (if lo = 0 then [s] else [])"

primrec ms :: "rx \<Rightarrow> mstate \<Rightarrow> mstate list" where
  "ms (Lit w) = (\<lambda>(p, t, g).
     if w \<noteq> [] \<and> take (length w) t = w then [(Some (last w), drop (length w) t, g)] else [])"
| "ms (Cls P) = (\<lambda>(p, t, g).
     case t of [] \<Rightarrow> [] | c # cs \<Rightarrow> if P c then [(Some c, cs, g)] else [])"
| "ms (Seq a b) = (\<lambda>s. concat (map (ms b) (ms a s)))"
| "ms (Alt a b) = (\<lambda>s. ms a s @ ms b s)"
| "ms (Rep lo hi r) = (\<lambda>s. rep_iter (ms r) lo hi (length (st_rest s)) s)"
| "ms (Grp n r) = (\<lambda>(p, t, g).
     map (\<lambda>(p', t', g'). (p', t', (n, take (length t - length t') t) # g')) (ms r (p, t, g)))"
| "ms Bol = (\<lambda>(p, t, g). if p = None then [(p, t, g)] else [])"
| "ms BolM = (\<lambda>(p, t, g). if p = None \<or> p = Some CHR 0x0A then [(p, t, g)] else [])"
| "ms Eol = (\<lambda>(p, t, g). if t = [] \<or> t = [CHR 0x0A] then [(p, t, g)] else [])"
| "ms EolM = (\<lambda>(p, t, g).
     case t of [] \<Rightarrow> [(p, t, g)] | c # cs \<Rightarrow> if c = CHR 0x0A then [(p, t, g)] else [])"
| "ms WordB = (\<lambda>(p, t, g).
     if is_word_opt p \<noteq> (case t of [] \<Rightarrow> False | c # cs \<Rightarrow> is_word c) then [(p, t, g)] else [])"
| "ms (Look r) = (\<lambda>s. if ms r s = [] then [] else [s])"
| "ms (NLook r) = (\<lambda>s. if ms r s = [] then [s] else [])"

text \<open>Abbreviations for the usual operators.\<close>

definition Star :: "rx \<Rightarrow> rx" where "Star r = Rep 0 None r"
definition Plus :: "rx \<Rightarrow> rx" where "Plus r = Rep 1 None r"
definition Opt :: "rx \<Rightarrow> rx" where "Opt r = Rep 0 (Some 1) r"

fun Seqs :: "rx list \<Rightarrow> rx" where
  "Seqs [] = Rep 0 (Some 0) (Lit [])"
| "Seqs [r] = r"
| "Seqs (r # rs) = Seq r (Seqs rs)"

fun Alts :: "rx list \<Rightarrow> rx" where
  "Alts [] = NLook (Rep 0 (Some 0) (Lit []))"
| "Alts [r] = r"
| "Alts (r # rs) = Alt r (Alts rs)"

definition Space :: rx where "Space = Cls is_space"       \<comment> \<open>\<^verbatim>\<open>\s\<close>\<close>
definition NonSpace :: rx where "NonSpace = Cls (\<lambda>c. \<not> is_space c)"   \<comment> \<open>\<^verbatim>\<open>\S\<close>\<close>
definition Digit :: rx where "Digit = Cls is_digit"       \<comment> \<open>\<^verbatim>\<open>\d\<close>\<close>
definition AnyChr :: rx where "AnyChr = Cls (\<lambda>c. c \<noteq> CHR 0x0A)"    \<comment> \<open>\<^verbatim>\<open>.\<close>\<close>
definition OneOf :: "string \<Rightarrow> rx" where "OneOf cs = Cls (\<lambda>c. c \<in> set cs)"

subsection \<open>The functions of \<^verbatim>\<open>re\<close>\<close>

text \<open>A match object: the offsets of its start and end, and its groups.\<close>

type_synonym match = "nat \<times> nat \<times> (nat \<times> string) list"

definition m_start :: "match \<Rightarrow> nat" where "m_start m = fst m"
definition m_end :: "match \<Rightarrow> nat" where "m_end m = fst (snd m)"

text \<open>\<^verbatim>\<open>m.group(n)\<close>: \<open>None\<close> when the group took no part in the match.\<close>

definition m_group :: "match \<Rightarrow> nat \<Rightarrow> string option" where
  "m_group m n = map_of (snd (snd m)) n"

text \<open>\<^verbatim>\<open>re.match(r, text)\<close>.\<close>

definition re_match :: "rx \<Rightarrow> string \<Rightarrow> match option" where
  "re_match r text =
     (case ms r (None, text, []) of
        [] \<Rightarrow> None
      | (p, t, g) # _ \<Rightarrow> Some (0, length text - length t, g))"

text \<open>
  The scanner behind \<^verbatim>\<open>finditer\<close>, \<^verbatim>\<open>findall\<close>, \<^verbatim>\<open>split\<close> and \<^verbatim>\<open>sub\<close>: the matches from
  left to right.  At each position the first way to match wins; when none matches, the
  scan moves one character on.  After an empty match the next match at the same position
  must consume text (\<open>must_advance\<close>).
\<close>

function scan :: "rx \<Rightarrow> bool \<Rightarrow> char option \<Rightarrow> string \<Rightarrow> nat \<Rightarrow> match list" where
  "scan r must_advance p t off =
     (case filter (\<lambda>s'. \<not> must_advance \<or> length (st_rest s') < length t) (ms r (p, t, [])) of
        [] \<Rightarrow> (case t of [] \<Rightarrow> [] | c # cs \<Rightarrow> scan r False (Some c) cs (Suc off))
      | (p', t', g) # _ \<Rightarrow>
          (if length t' < length t
           then (off, off + (length t - length t'), g)
                  # scan r False p' t' (off + (length t - length t'))
           else if must_advance then []
           else (off, off, g) # scan r True p t off))"
  by pat_completeness auto
termination
  by (relation "measures [\<lambda>(r, ma, p, t, off). length t, \<lambda>(r, ma, p, t, off). if ma then 0 else 1]")
     auto

declare scan.simps [simp del]

definition re_finditer :: "rx \<Rightarrow> string \<Rightarrow> match list" where
  "re_finditer r text = scan r False None text 0"

text \<open>\<^verbatim>\<open>re.search(r, text)\<close> as a truth value.\<close>

definition re_search :: "rx \<Rightarrow> string \<Rightarrow> bool" where
  "re_search r text = (re_finditer r text \<noteq> [])"

text \<open>\<^verbatim>\<open>re.split(r, text)\<close> for a pattern without groups: the pieces between the matches.\<close>

fun pieces :: "string \<Rightarrow> nat \<Rightarrow> match list \<Rightarrow> string list" where
  "pieces text from [] = [drop from text]"
| "pieces text from (m # ms') = slice text from (m_start m) # pieces text (m_end m) ms'"

definition re_split :: "rx \<Rightarrow> string \<Rightarrow> string list" where
  "re_split r text = pieces text 0 (re_finditer r text)"

text \<open>\<^verbatim>\<open>re.sub(r, repl, text)\<close> for a replacement without group references.\<close>

definition re_sub :: "rx \<Rightarrow> string \<Rightarrow> string \<Rightarrow> string" where
  "re_sub r repl text = join repl (re_split r text)"

subsection \<open>Dictionaries\<close>

text \<open>
  A \<^verbatim>\<open>dict\<close> from \<^verbatim>\<open>str\<close> to \<^verbatim>\<open>str\<close> is the list of its items in insertion order.
  Storing under a key that is present keeps the key's place; a new key goes last.
\<close>

type_synonym dict = "(string \<times> string) list"

definition d_get :: "dict \<Rightarrow> string \<Rightarrow> string option" where
  "d_get d k = map_of d k"

fun d_set :: "dict \<Rightarrow> string \<Rightarrow> string \<Rightarrow> dict" where
  "d_set [] k v = [(k, v)]"
| "d_set ((k', v') # d) k v = (if k' = k then (k, v) # d else (k', v') # d_set d k v)"

definition d_keys :: "dict \<Rightarrow> string list" where
  "d_keys d = map fst d"

text \<open>\<^verbatim>\<open>d[k]\<close> for a key the code has checked to be present.\<close>

definition d_at :: "dict \<Rightarrow> string \<Rightarrow> string" where
  "d_at d k = (case map_of d k of None \<Rightarrow> [] | Some v \<Rightarrow> v)"

section \<open>Tesseract: helpers\<close>

definition NL :: string where "NL = [CHR 0x0A]"

definition text_lines :: "string \<Rightarrow> string list" where
  "text_lines t = split_chr CHR 0x0A t"

text \<open>
  \<^verbatim>\<open>_normalize_ocr_noise\<close>, pattern
  \<^verbatim>\<open>^(\s*)(\d{1,3}(?:\.\d+)?)(\.)?\s+([=]?\s*)(.*)\<close>.
\<close>

definition SERIAL_NUM :: rx where   \<comment> \<open>\<^verbatim>\<open>\d{1,3}(?:\.\d+)?\<close>\<close>
  "SERIAL_NUM = Seq (Rep 1 (Some 3) Digit) (Opt (Seq (Lit ''.'') (Plus Digit)))"

definition NOISE_RE :: rx where
  "NOISE_RE = Seqs [Bol, Grp 1 (Star Space), Grp 2 SERIAL_NUM, Opt (Grp 3 (Lit ''.'')),
                    Plus Space, Grp 4 (Seq (Opt (Lit ''='')) (Star Space)), Grp 5 (Star AnyChr)]"

definition grp :: "match \<Rightarrow> nat \<Rightarrow> string" where
  "grp m n = (case m_group m n of None \<Rightarrow> [] | Some g \<Rightarrow> g)"

definition normalize_ocr_noise :: "string \<Rightarrow> string" where
  "normalize_ocr_noise line =
     (case re_match NOISE_RE line of
        None \<Rightarrow> line
      | Some m \<Rightarrow> grp m 1 @ grp m 2 @ '' '' @ grp m 5)"

text \<open>\<^verbatim>\<open>_is_genuine_inline_serial\<close>.\<close>

definition INLINE_SERIAL_RE :: rx where   \<comment> \<open>\<^verbatim>\<open>^\d{1,3}(?:\.\d+)?\s+\S\<close>\<close>
  "INLINE_SERIAL_RE = Seqs [Bol, SERIAL_NUM, Plus Space, NonSpace]"

definition IA_NO_RE :: rx where   \<comment> \<open>\<^verbatim>\<open>^(?:IA|No\.)\s\<close>\<close>
  "IA_NO_RE = Seqs [Bol, Alt (Lit ''IA'') (Lit ''No.''), Space]"

definition is_genuine_inline_serial :: "string \<Rightarrow> bool" where
  "is_genuine_inline_serial stripped =
     (if re_match INLINE_SERIAL_RE stripped = None then False
      else re_match IA_NO_RE stripped = None)"

text \<open>
  The case-type openers \<^verbatim>\<open>C\.A\.|SLP\(|W\.P\.\(|Crl\.A\.|MA\s+\d|Diary\s+No\.\<close>;
  \<^verbatim>\<open>_CASE_TYPE_OPENER_RE\<close> anchors them at a line start, \<^verbatim>\<open>_BENCH_CODE_RE\<close> is
  \<^verbatim>\<open>^(?:[IVX]+-?[A-Z]?|[A-Z]{1,3}|Il|PIL-\w+)$\<close>.
\<close>

definition CASE_TYPE_ALTS :: rx where
  "CASE_TYPE_ALTS = Alts [Lit ''C.A.'', Lit ''SLP('', Lit ''W.P.('', Lit ''Crl.A.'',
                          Seqs [Lit ''MA'', Plus Space, Digit],
                          Seqs [Lit ''Diary'', Plus Space, Lit ''No.'']]"

definition CASE_TYPE_OPENER_RE :: rx where
  "CASE_TYPE_OPENER_RE = Seq BolM CASE_TYPE_ALTS"

definition CASE_TYPE_START_RE :: rx where
  "CASE_TYPE_START_RE = Seq Bol CASE_TYPE_ALTS"

definition BENCH_CODE_RE :: rx where
  "BENCH_CODE_RE = Seqs [Bol,
      Alts [Seqs [Plus (OneOf ''IVX''), Opt (Lit ''-''), Opt (Cls is_AZ)],
            Rep 1 (Some 3) (Cls is_AZ),
            Lit ''Il'',
            Seqs [Lit ''PIL-'', Plus (Cls is_word)]],
      Eol]"

definition NUM_PUNCT_RE :: rx where   \<comment> \<open>\<^verbatim>\<open>^[\d\-/,]+$\<close>\<close>
  "NUM_PUNCT_RE = Seqs [Bol, Plus (Cls (\<lambda>c. is_digit c \<or> c \<in> set ''-/,'')), Eol]"

text \<open>\<^verbatim>\<open>_split_case_type_blocks\<close>.\<close>

definition split_case_type_blocks :: "string \<Rightarrow> string list" where
  "split_case_type_blocks text =
     (let starts = map m_start (re_finditer CASE_TYPE_OPENER_RE text)
      in if starts = [] then []
         else filter (\<lambda>b. b \<noteq> [])
                (map (\<lambda>(s, e). strip (slice text s e)) (zip starts (tl starts @ [length text]))))"

text \<open>\<^verbatim>\<open>_find_party_start_in_block\<close>: the loop over the lines, then the function.\<close>

fun party_start_loop :: "string list \<Rightarrow> nat \<Rightarrow> bool \<Rightarrow> nat option" where
  "party_start_loop [] pos seen = None"
| "party_start_loop (line # ls) pos seen =
     (let s = strip line in
      if s = [] then party_start_loop ls (pos + length line + 1) seen
      else if re_match CASE_TYPE_START_RE s \<noteq> None
        then party_start_loop ls (pos + length line + 1) True
      else if seen \<and> (re_match BENCH_CODE_RE s \<noteq> None \<or> re_match NUM_PUNCT_RE s \<noteq> None)
        then party_start_loop ls (pos + length line + 1) seen
      else if seen then Some pos
      else party_start_loop ls (pos + length line + 1) seen)"

definition find_party_start_in_block :: "string \<Rightarrow> nat" where
  "find_party_start_in_block block =
     (case party_start_loop (text_lines block) 0 False of
        Some pos \<Rightarrow> pos
      | None \<Rightarrow> length block)"

text \<open>\<^verbatim>\<open>_PARTY_SKIP\<close> and \<^verbatim>\<open>_looks_like_party\<close>.\<close>

definition PARTY_SKIP :: "string list" where
  "PARTY_SKIP = [''IA '', ''FOR '', ''IN '', ''I.R.'', ''SLP'', ''C.A.'', ''Diary'', ''W.P.'',
     ''Crl.'', ''FILING'', ''C/C'', ''AFFIDAVIT'', ''CONDONATION'', ''EXEMPTION'',
     ''PERMISSION'', ''CLARIFICATION'', ''STAY'', ''RELIEF'', ''APPLICATION'',
     ''MODIFICATION'', ''No.'', ''ADDL'', ''LENGTHY'', ''ADDITIONAL'']"

definition PARTY_NAME_RE :: rx where   \<comment> \<open>\<^verbatim>\<open>^[A-Z][A-Z0-9\s\.,&/@\-()\'\"M/S]+$\<close>\<close>
  "PARTY_NAME_RE = Seqs [Bol, Cls is_AZ,
      Plus (Cls (\<lambda>c. is_AZ c \<or> is_digit c \<or> is_space c
                      \<or> c \<in> set (''.,&/@-()'' @ [CHR 0x27, CHR 0x22] @ ''M/S''))),
      Eol]"

definition looks_like_party :: "string \<Rightarrow> bool" where
  "looks_like_party text =
     (let fl = strip (hd (text_lines (strip text))) in
      if fl = [] \<or> \<not> py_isupper (hd fl) then False
      else if list_ex (\<lambda>s. startswith fl s) PARTY_SKIP then False
      else if re_match PARTY_NAME_RE fl = None then False
      else 4 \<le> length fl)"

text \<open>
  \<^verbatim>\<open>_split_resp_frag\<close> and \<^verbatim>\<open>_split_frag0\<close>.  \<open>last_party\<close> is the greatest index of a
  paragraph that looks like a party name.
\<close>

definition PARA_SEP_RE :: rx where   \<comment> \<open>\<^verbatim>\<open>\n\n+\<close>\<close>
  "PARA_SEP_RE = Seq (Lit NL) (Plus (Lit NL))"

fun last_party :: "string list \<Rightarrow> nat option" where
  "last_party [] = None"
| "last_party (p # ps) =
     (case last_party ps of
        Some i \<Rightarrow> Some (Suc i)
      | None \<Rightarrow> if looks_like_party p then Some 0 else None)"

definition split_resp_frag :: "string \<Rightarrow> string \<times> string" where
  "split_resp_frag text =
     (let paras = re_split PARA_SEP_RE (strip text) in
      case last_party paras of
        None \<Rightarrow> (strip text, [])
      | Some l \<Rightarrow>
          if 0 < l then (strip (join (NL @ NL) (take l paras)), strip (join (NL @ NL) (drop l paras)))
          else (strip text, []))"

definition split_frag0 :: "string \<Rightarrow> string \<times> string" where
  "split_frag0 text =
     (let paras = re_split PARA_SEP_RE (strip text) in
      case last_party paras of
        None \<Rightarrow> ([], strip text)
      | Some l \<Rightarrow>
          if l = 0 then ([], strip text)
          else (strip (join (NL @ NL) (take l paras)), strip (join (NL @ NL) (drop l paras))))"

text \<open>
  \<^verbatim>\<open>_distribute_parties\<close>.  \<open>party_block\<close> is one round of its loop; reading
  \<^verbatim>\<open>frags[i]\<close> past the end of the list raises \<^verbatim>\<open>IndexError\<close>.
\<close>

definition VERSUS_LINE_RE :: rx where   \<comment> \<open>\<^verbatim>\<open>\n[ \t]*Versus[ \t]*\n\<close>\<close>
  "VERSUS_LINE_RE = Seqs [Lit NL, Star (OneOf [CHR 0x20, CHR 0x09]), Lit ''Versus'',
                          Star (OneOf [CHR 0x20, CHR 0x09]), Lit NL]"

definition party_block :: "string list \<Rightarrow> string \<Rightarrow> nat \<Rightarrow> py_error + string" where
  "party_block frags case0_pet i =
     (if i \<noteq> 0 \<and> \<not> i < length frags then Inl IndexError
      else
        (let pet = (if i = 0 then case0_pet else snd (split_resp_frag (frags ! i)));
             resp = (if i + 1 < length frags then fst (split_resp_frag (frags ! (i + 1))) else [])
         in Inr (if pet \<noteq> [] \<and> resp \<noteq> [] then pet @ NL @ ''Versus'' @ NL @ resp
                 else if pet \<noteq> [] then pet
                 else if resp \<noteq> [] then ''Versus'' @ NL @ resp
                 else [])))"

text \<open>The results of a loop whose rounds can raise: the first error ends it.\<close>

fun collect :: "(py_error + 'a) list \<Rightarrow> py_error + 'a list" where
  "collect [] = Inr []"
| "collect (Inl e # rs) = Inl e"
| "collect (Inr x # rs) = (case collect rs of Inl e \<Rightarrow> Inl e | Inr xs \<Rightarrow> Inr (x # xs))"

definition distribute_parties ::
    "string list \<Rightarrow> string list \<Rightarrow> string \<Rightarrow> py_error + (string \<times> string list)" where
  "distribute_parties case_blocks serials party_content =
     (let frags = re_split VERSUS_LINE_RE party_content;
          n = length case_blocks
      in if length frags < 2 then Inr ([], party_content # replicate (n - 1) [])
         else
           (let (frag0_resp, case0_pet) = split_frag0 (hd frags)
            in case collect (map (party_block frags case0_pet) [0..<n]) of
                 Inl e \<Rightarrow> Inl e
               | Inr blocks \<Rightarrow> Inr (frag0_resp, blocks)))"

section \<open>Tesseract: the column-dump reassembler\<close>

definition STANDALONE_RE :: rx where   \<comment> \<open>\<^verbatim>\<open>^\d{1,3}(?:\.\d+)?$\<close>\<close>
  "STANDALONE_RE = Seqs [Bol, SERIAL_NUM, Eol]"

definition LEAD_DIGITS_RE :: rx where   \<comment> \<open>\<^verbatim>\<open>^(\d{1,3})\<close>\<close>
  "LEAD_DIGITS_RE = Seq Bol (Grp 1 (Rep 1 (Some 3) Digit))"

text \<open>\<^verbatim>\<open>int(g)\<close> for a text \<open>g\<close> that a pattern \<^verbatim>\<open>\d+\<close> or \<^verbatim>\<open>\d{1,3}\<close> matched.\<close>

definition int_of_digits :: "string \<Rightarrow> int" where
  "int_of_digits g = int (nat_of_digits g)"

definition is_standalone :: "string \<Rightarrow> bool" where
  "is_standalone s = (re_match STANDALONE_RE s \<noteq> None \<and> s \<noteq> [])"

text \<open>
  The inner loop that gathers the bare numbers from line \<open>i\<close> on: the numbers found and
  the number of lines passed (\<open>j - i\<close>).
\<close>

fun collect_standalones :: "string list \<Rightarrow> string list \<times> nat" where
  "collect_standalones [] = ([], 0)"
| "collect_standalones (l # ls) =
     (let s = strip l in
      if is_standalone s then (let (a, k) = collect_standalones ls in (s # a, Suc k))
      else if s = [] then (let (a, k) = collect_standalones ls in (a, Suc k))
      else ([], 0))"

text \<open>The loop that emits the reassembled cases of a zone.\<close>

fun emit_cases :: "(string \<times> string \<times> string) list \<Rightarrow> string list \<Rightarrow> int option
                     \<Rightarrow> py_error + (string list \<times> int option)" where
  "emit_cases [] output last_inline = Inr (output, last_inline)"
| "emit_cases ((serial, cblock, pb) # zs) output last_inline =
     (let combined = (if pb \<noteq> [] then cblock @ NL @ pb else cblock);
          entry = (case py_find combined NL of
                     None \<Rightarrow> serial @ '' '' @ combined
                   | Some nl \<Rightarrow> serial @ '' '' @ take nl combined @ NL @ drop (nl + 1) combined)
      in case py_int (main_part serial) of
           None \<Rightarrow> Inl ValueError
         | Some v \<Rightarrow> emit_cases zs (output @ [entry]) (Some v))"

text \<open>
  The body of the loop for a dump zone, from \<^verbatim>\<open>_infer_serials\<close> to the emitted cases:
  the new output and the new \<open>last_inline\<close>.
\<close>

definition dump_zone :: "string list \<Rightarrow> string \<Rightarrow> string list \<Rightarrow> string list \<Rightarrow> int option
                           \<Rightarrow> py_error + (string list \<times> int option)" where
  "dump_zone standalones content case_blocks output last_inline =
     (case infer_serials last_inline standalones (length case_blocks) of
        Inl e \<Rightarrow> Inl e
      | Inr full_serials \<Rightarrow>
         (let type_starts = map m_start (re_finditer CASE_TYPE_OPENER_RE content);
              (party_content, case_blocks') =
                 (if type_starts \<noteq> [] then
                    (let last_type_start = last type_starts;
                         last_block_text = drop last_type_start content;
                         psi = find_party_start_in_block last_block_text
                     in if psi < length last_block_text then
                          (let clean_last = strip (take psi last_block_text)
                           in (strip (drop (last_type_start + psi) content),
                               butlast case_blocks @ (if clean_last \<noteq> [] then [clean_last] else [])))
                        else ([], case_blocks))
                  else ([], case_blocks))
          in case (if party_content \<noteq> [] then
                     (case distribute_parties case_blocks' full_serials party_content of
                        Inl e \<Rightarrow> Inl e
                      | Inr (inline_resp, party_blocks) \<Rightarrow>
                          Inr (if inline_resp \<noteq> [] then output @ [''Versus'' @ NL @ inline_resp]
                               else output, party_blocks))
                   else Inr (output, replicate (length case_blocks') []))
             of Inl e \<Rightarrow> Inl e
              | Inr (output', party_blocks) \<Rightarrow>
                  emit_cases (zip full_serials (zip case_blocks' party_blocks)) output' last_inline))"

text \<open>
  The main loop of \<^verbatim>\<open>_reassemble_column_dumps\<close> over the lines from \<open>i\<close> on
  (\<open>line\<close> is \<^verbatim>\<open>lines[i]\<close>).
\<close>

function reassemble_loop :: "string list \<Rightarrow> string list \<Rightarrow> int option \<Rightarrow> py_error + string list" where
  "reassemble_loop [] output last_inline = Inr output"
| "reassemble_loop (line # ls) output last_inline =
     (let stripped = strip line in
      if is_genuine_inline_serial stripped then
        reassemble_loop ls (output @ [line])
          (case re_match LEAD_DIGITS_RE stripped of
             None \<Rightarrow> last_inline
           | Some m \<Rightarrow> Some (int_of_digits (grp m 1)))
      else if is_standalone stripped then
        (let standalones = fst (collect_standalones (line # ls));
             k = snd (collect_standalones (line # ls))
         in if length standalones < 2 then reassemble_loop ls (output @ [line]) last_inline
            else
              (let window = takeWhile (\<lambda>l. \<not> is_genuine_inline_serial (strip l)) (drop k (line # ls));
                   content = join NL window;
                   case_blocks = split_case_type_blocks content
               in if case_blocks = [] then reassemble_loop ls (output @ [line]) last_inline
                  else
                    (case dump_zone standalones content case_blocks output last_inline of
                       Inl e \<Rightarrow> Inl e
                     | Inr (output', last_inline') \<Rightarrow>
                         reassemble_loop (drop (k + length window) (line # ls)) output' last_inline')))
      else reassemble_loop ls (output @ [line]) last_inline)"
  by pat_completeness auto
termination
  apply (relation "measure (\<lambda>(ls, out, li). length ls)")
    apply simp_all
  apply (simp add: Let_def split: prod.splits)
  done

declare reassemble_loop.simps [simp del]

definition reassemble_column_dumps :: "string \<Rightarrow> py_error + string" where
  "reassemble_column_dumps text =
     (let text' = join NL (map normalize_ocr_noise (text_lines text));
          lines = text_lines text'
      in case reassemble_loop lines [] None of
           Inl e \<Rightarrow> Inl e
         | Inr output \<Rightarrow> Inr (join NL output))"

section \<open>Tesseract: the core segmenter\<close>

definition NO_DOT :: rx where   \<comment> \<open>\<^verbatim>\<open>No\.|no\.|NO\.\<close>\<close>
  "NO_DOT = Alts [Lit ''No.'', Lit ''no.'', Lit ''NO.'']"

text \<open>
  \<^verbatim>\<open>_TESSERACT_LEADING_RE\<close>,
  \<^verbatim>\<open>^(?P<main>\d{1,3})(?:\.(?P<sub>\d+))?\s+(?!(?:No\.|no\.|NO\.))\<close>
  (group 1 is \<^verbatim>\<open>main\<close>, group 2 is \<^verbatim>\<open>sub\<close>), and \<^verbatim>\<open>_TESSERACT_SPLIT_RE\<close>,
  \<^verbatim>\<open>(?=(?:^|\n)\s*\d{1,3}(?:\.\d+)?\s+(?!No\.|no\.|NO\.)[A-Z({\[])\<close> under
  \<^verbatim>\<open>re.MULTILINE\<close>.
\<close>

definition TESSERACT_LEADING_RE :: rx where
  "TESSERACT_LEADING_RE = Seqs [Bol, Grp 1 (Rep 1 (Some 3) Digit),
      Opt (Seq (Lit ''.'') (Grp 2 (Plus Digit))), Plus Space, NLook NO_DOT]"

definition TESSERACT_SPLIT_RE :: rx where
  "TESSERACT_SPLIT_RE = Look (Seqs [Alt BolM (Lit NL), Star Space, SERIAL_NUM, Plus Space,
      NLook NO_DOT, Cls (\<lambda>c. is_AZ c \<or> c \<in> set ''({['')])"

definition tesseract_parse_serial :: "string \<Rightarrow> (int \<times> int option) option" where
  "tesseract_parse_serial block =
     (case re_match TESSERACT_LEADING_RE (lstrip block) of
        None \<Rightarrow> None
      | Some m \<Rightarrow> Some (int_of_digits (grp m 1),
                         (case m_group m 2 of
                            None \<Rightarrow> None
                          | Some g \<Rightarrow> if g \<noteq> [] then Some (int_of_digits g) else None)))"

text \<open>\<^verbatim>\<open>cases.get(key, '')\<close>.\<close>

definition d_get_or_empty :: "dict \<Rightarrow> string \<Rightarrow> string" where
  "d_get_or_empty d k = (case d_get d k of None \<Rightarrow> [] | Some v \<Rightarrow> v)"

text \<open>The marker \<^verbatim>\<open>f"--- Connected {main}.{sub} ---\n"\<close>.\<close>

definition connected_marker :: "int \<Rightarrow> int \<Rightarrow> string" where
  "connected_marker main sub = ''--- Connected '' @ py_str main @ ''.'' @ py_str sub @ '' ---'' @ NL"

text \<open>One round of the loop of \<^verbatim>\<open>segment_cases_tesseract\<close>: the state is \<open>(cases, last_key)\<close>.\<close>

definition tess_step :: "dict \<times> string option \<Rightarrow> string \<Rightarrow> dict \<times> string option" where
  "tess_step st raw =
     (let cases = fst st; last_key = snd st; block = strip raw in
      if block = [] then (cases, last_key)
      else case tesseract_parse_serial block of
        None \<Rightarrow>
          (case last_key of
             Some k \<Rightarrow> (d_set cases k (d_at cases k @ NL @ NL @ block), last_key)
           | None \<Rightarrow> (cases, last_key))
      | Some (main, sub) \<Rightarrow>
          (let key = py_str main in
           case sub of
             Some sb \<Rightarrow>
               (d_set cases key (d_get_or_empty cases key @ NL @ NL @ connected_marker main sb @ block),
                Some key)
           | None \<Rightarrow>
               (d_set cases key (d_get_or_empty cases key
                                  @ (if d_get cases key \<noteq> None then NL @ NL else []) @ block),
                Some key)))"

definition segment_cases_tesseract :: "string \<Rightarrow> py_error + dict" where
  "segment_cases_tesseract text =
     (case reassemble_column_dumps text of
        Inl e \<Rightarrow> Inl e
      | Inr text' \<Rightarrow> Inr (fst (foldl tess_step ([], None) (re_split TESSERACT_SPLIT_RE text'))))"

section \<open>Azure: line tags and the blob splitter\<close>

datatype tag = EMPTY | VERSUS | IA | ADVOCATE | STRUCTURAL | PARTY

definition VERSUS_START_RE :: rx where   \<comment> \<open>\<^verbatim>\<open>^Versus\b\<close>\<close>
  "VERSUS_START_RE = Seqs [Bol, Lit ''Versus'', WordB]"

definition IA_NO_FOR_RE :: rx where   \<comment> \<open>\<^verbatim>\<open>^IA (?:No\.|FOR )\<close>\<close>
  "IA_NO_FOR_RE = Seqs [Bol, Lit ''IA '', Alt (Lit ''No.'') (Lit ''FOR '')]"

definition FOR_RE :: rx where
  "FOR_RE = Seqs [Bol, Lit ''FOR '',
      Alts [Lit ''EXEMPTION'', Lit ''ADMISSION'', Lit ''CONDONATION'', Lit ''PERMISSION'',
            Lit ''GRANT'', Lit ''APPLICATION'', Lit ''MODIFICATION'', Lit ''STAY'',
            Lit ''CLARIFICATION'', Lit ''APPROPRIATE'', Lit ''I.R.'']]"

definition IR_RE :: rx where   \<comment> \<open>\<^verbatim>\<open>^I\.R\.\<close>\<close>
  "IR_RE = Seq Bol (Lit ''I.R.'')"

definition ADVOCATE_RE :: rx where   \<comment> \<open>\<^verbatim>\<open>\[(?:R|P|CAVEAT)-\<close>\<close>
  "ADVOCATE_RE = Seqs [Lit ''['', Alts [Lit ''R'', Lit ''P'', Lit ''CAVEAT''], Lit ''-'']"

text \<open>\<^verbatim>\<open>_azure_tag_line\<close>.\<close>

definition azure_tag_line :: "string \<Rightarrow> tag" where
  "azure_tag_line line =
     (let s = strip line in
      if s = [] then EMPTY
      else if re_match VERSUS_START_RE s \<noteq> None then VERSUS
      else if re_match IA_NO_FOR_RE s \<noteq> None \<or> re_match FOR_RE s \<noteq> None
              \<or> re_match IR_RE s \<noteq> None then IA
      else if re_search ADVOCATE_RE s then ADVOCATE
      else PARTY)"

text \<open>\<^verbatim>\<open>versus_is_inline\<close>, pattern \<^verbatim>\<open>^Versus\s+(.+)\<close>, on line \<open>i\<close> of the blob.\<close>

definition VERSUS_INLINE_RE :: rx where
  "VERSUS_INLINE_RE = Seqs [Bol, Lit ''Versus'', Plus Space, Grp 1 (Plus AnyChr)]"

definition versus_is_inline :: "string list \<Rightarrow> nat \<Rightarrow> bool" where
  "versus_is_inline lines i =
     (case re_match VERSUS_INLINE_RE (strip (lines ! i)) of
        None \<Rightarrow> False
      | Some m \<Rightarrow> strip (grp m 1) \<noteq> [])"

text \<open>
  The loop \<^verbatim>\<open>while j < vi\<close> of \<^verbatim>\<open>_azure_split_blob\<close>: it returns \<open>last_section_end\<close>.
\<close>

function resp_scan :: "tag list \<Rightarrow> nat \<Rightarrow> nat \<Rightarrow> nat \<Rightarrow> bool \<Rightarrow> nat" where
  "resp_scan tags vi j last_section_end respondent_found =
     (if j < vi then
        (let t = tags ! j in
         if t = EMPTY then resp_scan tags vi (j + 1) last_section_end respondent_found
         else if \<not> respondent_found \<and> t = PARTY then resp_scan tags vi (j + 1) j True
         else if t = IA \<or> t = ADVOCATE then resp_scan tags vi (j + 1) j True
         else if t = PARTY \<and> respondent_found then last_section_end
         else resp_scan tags vi (j + 1) last_section_end respondent_found)
      else last_section_end)"
  by pat_completeness auto
termination
  by (relation "measure (\<lambda>(tags, vi, j, e, f). vi - j)") auto

declare resp_scan.simps [simp del]

text \<open>The loop \<^verbatim>\<open>while ps < vi and tags[ps] == 'EMPTY': ps += 1\<close>.\<close>

function skip_empty :: "tag list \<Rightarrow> nat \<Rightarrow> nat \<Rightarrow> nat" where
  "skip_empty tags vi ps =
     (if ps < vi \<and> tags ! ps = EMPTY then skip_empty tags vi (ps + 1) else ps)"
  by pat_completeness auto
termination
  by (relation "measure (\<lambda>(tags, vi, ps). vi - ps)") auto

declare skip_empty.simps [simp del]

text \<open>The petitioner start that belongs to one pair of consecutive \<^verbatim>\<open>Versus\<close> lines.\<close>

definition pet_start :: "string list \<Rightarrow> tag list \<Rightarrow> nat \<Rightarrow> nat \<Rightarrow> nat" where
  "pet_start lines tags prev_vi vi =
     (let inline = versus_is_inline lines prev_vi;
          last_section_end = resp_scan tags vi (prev_vi + 1) prev_vi inline
      in skip_empty tags vi (last_section_end + 1))"

text \<open>\<^verbatim>\<open>_azure_split_blob\<close>.\<close>

definition azure_split_blob :: "string \<Rightarrow> string list" where
  "azure_split_blob blob =
     (let lines = text_lines blob;
          n = length lines;
          tags = map azure_tag_line lines;
          versus_positions = filter (\<lambda>i. tags ! i = VERSUS) [0..<n]
      in if versus_positions = [] then (if strip blob \<noteq> [] then [strip blob] else [])
         else
           (let pet_starts = 0 # map (\<lambda>(prev_vi, vi). pet_start lines tags prev_vi vi)
                                     (zip versus_positions (tl versus_positions))
            in filter (\<lambda>b. b \<noteq> [])
                 (map (\<lambda>(start, end). strip (join NL (slice lines start end)))
                      (zip pet_starts (tl pet_starts @ [n])))))"

section \<open>Azure: the start of the blob\<close>

definition STRUCTURAL_LINE_RE :: rx where
  "STRUCTURAL_LINE_RE = Seq Bol
      (Alts [Seqs [Lit ''---'', Star Space, Lit ''Connected''],
             Seq SERIAL_NUM (Plus Space),
             CASE_TYPE_ALTS])"

text \<open>\<^verbatim>\<open>_azure_tag_for_struct\<close>.\<close>

definition azure_tag_for_struct :: "string \<Rightarrow> tag" where
  "azure_tag_for_struct line =
     (let s = strip line in
      if s = [] then EMPTY
      else if re_match VERSUS_START_RE s \<noteq> None then VERSUS
      else if re_match IA_NO_FOR_RE s \<noteq> None \<or> re_match FOR_RE s \<noteq> None
              \<or> re_match IR_RE s \<noteq> None then IA
      else if re_search ADVOCATE_RE s then ADVOCATE
      else if re_match STRUCTURAL_LINE_RE s \<noteq> None \<or> startswith s ''---'' then STRUCTURAL
      else PARTY)"

text \<open>
  The walk back from the first \<^verbatim>\<open>Versus\<close> line: \<open>walk_back tags k\<close> looks at the lines
  \<open>k - 1\<close>, \<open>k - 2\<close>, ... and returns the index after the first line tagged
  \<^verbatim>\<open>STRUCTURAL\<close>, \<^verbatim>\<open>IA\<close>, \<^verbatim>\<open>ADVOCATE\<close> or \<^verbatim>\<open>VERSUS\<close>; \<open>None\<close> is the \<^verbatim>\<open>else\<close> of the loop.
\<close>

fun walk_back :: "tag list \<Rightarrow> nat \<Rightarrow> nat option" where
  "walk_back tags 0 = None"
| "walk_back tags (Suc pet_a) =
     (let t = tags ! pet_a in
      if t = EMPTY then walk_back tags pet_a
      else if t = STRUCTURAL \<or> t = IA \<or> t = ADVOCATE \<or> t = VERSUS then Some (Suc pet_a)
      else walk_back tags pet_a)"

text \<open>The two forward loops of part B: they return \<open>struct_end\<close> and \<open>preamble_end\<close>.\<close>

function struct_scan :: "tag list \<Rightarrow> nat \<Rightarrow> nat \<Rightarrow> nat" where
  "struct_scan tags i struct_end =
     (if i < length tags then
        (if tags ! i = STRUCTURAL \<or> tags ! i = EMPTY then struct_scan tags (i + 1) i
         else struct_end)
      else struct_end)"
  by pat_completeness auto
termination
  by (relation "measure (\<lambda>(tags, i, e). length tags - i)") auto

declare struct_scan.simps [simp del]

function preamble_scan :: "tag list \<Rightarrow> nat \<Rightarrow> nat \<Rightarrow> nat" where
  "preamble_scan tags j preamble_end =
     (if j < length tags then
        (if tags ! j = ADVOCATE \<or> tags ! j = IA then preamble_scan tags (j + 1) j
         else if tags ! j = EMPTY then preamble_scan tags (j + 1) preamble_end
         else preamble_end)
      else preamble_end)"
  by pat_completeness auto
termination
  by (relation "measure (\<lambda>(tags, j, e). length tags - j)") auto

declare preamble_scan.simps [simp del]

text \<open>\<^verbatim>\<open>sum(len(l) + 1 for l in lines[:k])\<close>.\<close>

definition offset_of_line :: "string list \<Rightarrow> nat \<Rightarrow> nat" where
  "offset_of_line lines k = sum_list (map (\<lambda>l. length l + 1) (take k lines))"

text \<open>\<^verbatim>\<open>_azure_find_blob_start\<close>.\<close>

definition azure_find_blob_start :: "string \<Rightarrow> nat" where
  "azure_find_blob_start text =
     (let lines = text_lines text;
          tags = map azure_tag_for_struct lines
      in case filter (\<lambda>i. tags ! i = VERSUS) [0..<length lines] of
           [] \<Rightarrow> length text
         | first_versus # _ \<Rightarrow>
            (let pet_a = (case walk_back tags first_versus of
                            None \<Rightarrow> 0
                          | Some a \<Rightarrow> skip_empty tags first_versus a);
                 pos_a = offset_of_line lines pet_a;
                 struct_end = struct_scan tags 0 0;
                 preamble_end = preamble_scan tags (struct_end + 1) struct_end;
                 pos_b = (if struct_end < preamble_end then offset_of_line lines (preamble_end + 1)
                          else 0)
             in max pos_a pos_b))"

section \<open>Sorting keys by \<^verbatim>\<open>float\<close>\<close>

text \<open>
  \<^verbatim>\<open>sorted(cases.keys(), key=lambda k: float(k))\<close>.  The keys of the mappings are strings
  of decimal digits (\<^verbatim>\<open>str\<close> of an \<^verbatim>\<open>int\<close>, or the text a pattern \<^verbatim>\<open>\d+\<close> matched);
  \<open>py_float\<close> is \<^verbatim>\<open>float\<close> on such a string: the number, rounded to the nearest double
  (to even on a tie), and infinity from \<open>2 ^ 1024\<close> on.  The sort is stable.
\<close>

function bit_length :: "nat \<Rightarrow> nat" where
  "bit_length n = (if n = 0 then 0 else Suc (bit_length (n div 2)))"
  by pat_completeness auto
termination
  by (relation "measure id") auto

declare bit_length.simps [simp del]

definition round_double :: "nat \<Rightarrow> nat" where
  "round_double n =
     (if n < 2 ^ 53 then n
      else
        (let e = bit_length n - 53;
             q = n div 2 ^ e;
             r = n mod 2 ^ e;
             half = 2 ^ (e - 1)
         in (if half < r \<or> (r = half \<and> odd q) then q + 1 else q) * 2 ^ e))"

definition py_float :: "string \<Rightarrow> enat" where
  "py_float k =
     (let v = round_double (nat_of_digits k) in if 2 ^ 1024 \<le> v then \<infinity> else enat v)"

definition sorted_keys :: "dict \<Rightarrow> string list" where
  "sorted_keys cases = sort_key py_float (d_keys cases)"

section \<open>Azure: blob redistribution\<close>

definition VERSUS_WORD_RE :: rx where   \<comment> \<open>\<^verbatim>\<open>\bVersus\b\<close>\<close>
  "VERSUS_WORD_RE = Seqs [WordB, Lit ''Versus'', WordB]"

definition count_versus :: "string \<Rightarrow> nat" where
  "count_versus text = length (re_finditer VERSUS_WORD_RE text)"

definition is_stub :: "dict \<Rightarrow> string \<Rightarrow> bool" where
  "is_stub result key = (count_versus (d_at result key) = 0)"

definition CONNECTED_SPLIT_RE :: rx where   \<comment> \<open>\<^verbatim>\<open>(?=\n--- Connected )\<close>\<close>
  "CONNECTED_SPLIT_RE = Look (Lit (NL @ ''--- Connected ''))"

text \<open>The greatest index of a section with at least two \<^verbatim>\<open>Versus\<close>.\<close>

fun blob_section :: "string list \<Rightarrow> nat option" where
  "blob_section [] = None"
| "blob_section (sec # secs) =
     (case blob_section secs of
        Some si \<Rightarrow> Some (Suc si)
      | None \<Rightarrow> if 2 \<le> count_versus sec then Some 0 else None)"

text \<open>One round of the loop that hands a block of the blob to a stub.\<close>

definition give_to_stub :: "dict \<Rightarrow> string \<times> string \<Rightarrow> dict" where
  "give_to_stub result kb =
     (let stub_key = fst kb; blob_block = snd kb;
          stub_text = d_at result stub_key
      in case py_find stub_text (NL @ ''--- Connected'') of
           Some insert_at \<Rightarrow>
             d_set result stub_key
               (rstrip (take insert_at stub_text) @ NL @ blob_block @ drop insert_at stub_text)
         | None \<Rightarrow> d_set result stub_key (rstrip stub_text @ NL @ blob_block))"

text \<open>
  The part of the loop of \<^verbatim>\<open>_azure_redistribute_blobs\<close> that handles one run of stubs
  \<open>stub_run\<close> followed by the key \<open>blob_owner_key\<close>.
\<close>

definition redistribute_run :: "dict \<Rightarrow> string list \<Rightarrow> string \<Rightarrow> dict" where
  "redistribute_run result stub_run blob_owner_key =
     (let blob_owner_text = d_at result blob_owner_key;
          sections = re_split CONNECTED_SPLIT_RE blob_owner_text
      in case blob_section sections of
           None \<Rightarrow> result
         | Some blob_section_idx \<Rightarrow>
            (let blob_section_text = sections ! blob_section_idx;
                 blob_start = azure_find_blob_start blob_section_text;
                 structural_header = rstrip (take blob_start blob_section_text);
                 blob = drop blob_start blob_section_text;
                 blob_blocks = azure_split_blob blob
             in if blob_blocks = [] then result
                else
                  (let n_stubs = length stub_run;
                       result' = foldl give_to_stub result (zip stub_run blob_blocks);
                       owner_extra = drop n_stubs blob_blocks;
                       sections' = sections[blob_section_idx :=
                          (if owner_extra \<noteq> []
                           then strip (structural_header @ NL @ join NL owner_extra)
                           else strip structural_header)]
                   in d_set result' blob_owner_key
                        (join NL (filter (\<lambda>s. strip s \<noteq> []) sections')))))"

function redistribute_loop :: "string list \<Rightarrow> nat \<Rightarrow> dict \<Rightarrow> dict" where
  "redistribute_loop all_keys i result =
     (if i < length all_keys then
        (if \<not> is_stub result (all_keys ! i) then redistribute_loop all_keys (i + 1) result
         else
           (let stub_run = takeWhile (is_stub result) (drop i all_keys);
                j = i + length stub_run
            in if length all_keys \<le> j then redistribute_loop all_keys j result
               else redistribute_loop all_keys (j + 1)
                      (redistribute_run result stub_run (all_keys ! j))))
      else result)"
  by pat_completeness auto
termination
  by (relation "measure (\<lambda>(all_keys, i, result). length all_keys - i)") auto

declare redistribute_loop.simps [simp del]

text \<open>\<^verbatim>\<open>_azure_redistribute_blobs\<close>.\<close>

definition azure_redistribute_blobs :: "dict \<Rightarrow> dict" where
  "azure_redistribute_blobs cases = redistribute_loop (sorted_keys cases) 0 cases"

section \<open>Azure: the segmenter\<close>

definition PAGE_MARKER_RE :: rx where   \<comment> \<open>\<^verbatim>\<open>\n*=== PAGE \d+ ===\n*\<close>\<close>
  "PAGE_MARKER_RE = Seqs [Star (Lit NL), Lit ''=== PAGE '', Plus Digit, Lit '' ==='', Star (Lit NL)]"

text \<open>The classification of the raw blocks: \<open>(main, sub, block)\<close>, empty blocks dropped.\<close>

definition classify :: "string list \<Rightarrow> (int option \<times> int option \<times> string) list" where
  "classify raw_blocks =
     map (\<lambda>block. case tesseract_parse_serial block of
                     None \<Rightarrow> (None, None, block)
                   | Some (main, sub) \<Rightarrow> (Some main, sub, block))
         (filter (\<lambda>block. block \<noteq> []) (map strip raw_blocks))"

text \<open>One round of the loop that stitches orphans and merges sub-cases.\<close>

definition azure_step :: "dict \<times> string option \<Rightarrow> int option \<times> int option \<times> string
                             \<Rightarrow> dict \<times> string option" where
  "azure_step st c =
     (let cases = fst st; last_key = snd st; blk = snd (snd c) in
      case fst c of
        None \<Rightarrow>
          (case last_key of
             Some k \<Rightarrow> (d_set cases k (d_at cases k @ NL @ NL @ blk), last_key)
           | None \<Rightarrow> (cases, last_key))
      | Some main \<Rightarrow>
          (let key = py_str main in
           case fst (snd c) of
             Some sub \<Rightarrow>
               (if d_get cases key \<noteq> None
                then (d_set cases key (d_at cases key @ NL @ NL @ connected_marker main sub @ blk), Some key)
                else (d_set cases key (connected_marker main sub @ blk), Some key))
           | None \<Rightarrow>
               (if d_get cases key \<noteq> None
                then (if startswith (d_at cases key) ''--- Connected''
                      then (d_set cases key (blk @ NL @ NL @ d_at cases key), Some key)
                      else (d_set cases key (d_at cases key @ NL @ NL @ blk), Some key))
                else (d_set cases key blk, Some key))))"

definition azure_merge :: "(int option \<times> int option \<times> string) list \<Rightarrow> dict" where
  "azure_merge classified = fst (foldl azure_step ([], None) classified)"

definition segment_cases_azure :: "string \<Rightarrow> dict" where
  "segment_cases_azure text =
     (let text' = re_sub PAGE_MARKER_RE NL text;
          raw_blocks = re_split TESSERACT_SPLIT_RE text'
      in azure_redistribute_blobs (azure_merge (classify raw_blocks)))"

section \<open>Paddle\<close>

text \<open>
  \<^verbatim>\<open>SERIAL_PATTERN\<close>, \<^verbatim>\<open>^\s*(\d+(?:\.\d+)?)(?:\s*$|\s*Connected\b)\<close>, and
  \<^verbatim>\<open>CASE_TYPE_PATTERN\<close>, \<^verbatim>\<open>^(C\.A\. No\.|SLP\(C\) No\.|MA\s+\d+/\d+|Diary No\.)\<close>, both
  under \<^verbatim>\<open>re.MULTILINE\<close>.
\<close>

definition SERIAL_PATTERN :: rx where
  "SERIAL_PATTERN = Seqs [BolM, Star Space,
      Grp 1 (Seq (Plus Digit) (Opt (Seq (Lit ''.'') (Plus Digit)))),
      Alt (Seq (Star Space) EolM) (Seqs [Star Space, Lit ''Connected'', WordB])]"

definition CASE_TYPE_PATTERN :: rx where
  "CASE_TYPE_PATTERN = Seq BolM
      (Grp 1 (Alts [Lit ''C.A. No.'', Lit ''SLP(C) No.'',
                    Seqs [Lit ''MA'', Plus Space, Plus Digit, Lit ''/'', Plus Digit],
                    Lit ''Diary No.'']))"

definition paddle_marker :: "string \<Rightarrow> string" where
  "paddle_marker serial = ''--- Connected Case '' @ serial @ '' ---'' @ NL"

text \<open>One round of the first loop of \<^verbatim>\<open>segment_cases_paddle\<close>, for a serial and its block.\<close>

definition paddle_step :: "dict \<Rightarrow> string \<times> string \<Rightarrow> dict" where
  "paddle_step cases sb =
     (let serial = fst sb; block = snd sb in
      if CHR ''.'' \<in> set serial then
        (let parent_serial = hd (split_chr CHR ''.'' serial) in
         if d_get cases parent_serial \<noteq> None
         then d_set cases parent_serial (d_at cases parent_serial @ NL @ NL @ paddle_marker serial @ block)
         else d_set cases parent_serial (paddle_marker serial @ block))
      else d_set cases serial block)"

text \<open>
  One round of the loop of \<^verbatim>\<open>_repair_layout_drift\<close>, for the keys \<open>current_serial\<close> and
  \<open>next_serial\<close>.  The test \<^verbatim>\<open>last_match.start() > len(parent_text) * 0.6\<close> compares an
  integer with a double; for texts shorter than \<open>2 ^ 50\<close> characters it holds exactly when
  \<open>5 * start > 3 * len\<close>.
\<close>

definition drift_step :: "dict \<Rightarrow> string \<times> string \<Rightarrow> dict" where
  "drift_step cases cn =
     (let current_serial = fst cn; next_serial = snd cn;
          current_text = d_at cases current_serial;
          parent_end = py_find current_text (NL @ NL @ ''--- Connected Case'');
          parent_text = (case parent_end of Some e \<Rightarrow> take e current_text | None \<Rightarrow> current_text);
          matches = re_finditer CASE_TYPE_PATTERN parent_text
      in if matches = [] then cases
         else
           (let last_match = last matches in
            if 3 * length parent_text < 5 * m_start last_match then
              (let trailing = strip (drop (m_start last_match) parent_text);
                   kept = strip (take (m_start last_match) parent_text);
                   cases' = d_set cases current_serial
                              (case parent_end of
                                 Some e \<Rightarrow> kept @ drop e current_text
                               | None \<Rightarrow> kept)
               in d_set cases' next_serial (trailing @ NL @ d_at cases' next_serial))
            else cases))"

text \<open>\<^verbatim>\<open>_repair_layout_drift\<close>.\<close>

definition repair_layout_drift :: "dict \<Rightarrow> dict" where
  "repair_layout_drift cases =
     (let serials = sorted_keys cases
      in foldl drift_step cases (zip serials (tl serials)))"

text \<open>\<^verbatim>\<open>segment_cases_paddle\<close>.\<close>

definition paddle_blocks :: "string \<Rightarrow> (string \<times> string) list" where
  "paddle_blocks text =
     (let matches = re_finditer SERIAL_PATTERN text
      in map (\<lambda>(m, end). (grp m 1, strip (slice text (m_start m) end)))
             (zip matches (map m_start (tl matches) @ [length text])))"

definition segment_cases_paddle :: "string \<Rightarrow> dict" where
  "segment_cases_paddle text =
     (if re_finditer SERIAL_PATTERN text = [] then []
      else repair_layout_drift (foldl paddle_step [] (paddle_blocks text)))"

section \<open>The dispatcher\<close>

text \<open>\<^verbatim>\<open>segment_cases\<close>: \<open>Inl\<close> is the exception raised.\<close>

definition segment_cases :: "string \<Rightarrow> string \<Rightarrow> py_error + dict" where
  "segment_cases text selected_engine =
     (if selected_engine = ''tesseract'' then segment_cases_tesseract text
      else if selected_engine = ''azure'' then Inr (segment_cases_azure text)
      else if selected_engine = ''paddle'' then Inr (segment_cases_paddle text)
      else Inl ValueError)"

section \<open>Notions used in the statements\<close>

text \<open>\<^verbatim>\<open>sub in s\<close>: \<open>sub\<close> occurs in \<open>s\<close>.\<close>

definition py_in :: "string \<Rightarrow> string \<Rightarrow> bool" where
  "py_in sub s = (py_find s sub \<noteq> None)"

text \<open>A key that is the decimal string of its own integer value.\<close>

definition canonical_decimal :: "string \<Rightarrow> bool" where
  "canonical_decimal k = (k = str_nat (nat_of_digits k))"

text \<open>
  The candidate blocks of the Serial Boundary Splitter on a text, and the keys
  \<^verbatim>\<open>str(main)\<close> of the blocks that carry a serial.
\<close>

definition candidate_blocks :: "string \<Rightarrow> string list" where
  "candidate_blocks text = filter (\<lambda>b. b \<noteq> []) (map strip (re_split TESSERACT_SPLIT_RE text))"

definition main_keys :: "string list \<Rightarrow> string set" where
  "main_keys blocks = {py_str main | main sub b.
      b \<in> set blocks \<and> tesseract_parse_serial b = Some (main, sub)}"

text \<open>What the loops of the tesseract and azure segmenters keep true of their state.\<close>

definition loop_inv :: "dict \<times> string option \<Rightarrow> string list \<Rightarrow> bool" where
  "loop_inv st blocks =
     (set (d_keys (fst st)) \<subseteq> main_keys blocks \<and> distinct (d_keys (fst st))
      \<and> (case snd st of None \<Rightarrow> True | Some k \<Rightarrow> k \<in> set (d_keys (fst st))))"

text \<open>
  The texts a pattern can consume (\<open>lang\<close>), the group bindings a match of it can add
  (\<open>caps\<close>) and the groups every match of it binds (\<open>must\<close>).  Anchors and lookarounds
  consume nothing.  \<open>sound f L C M\<close> says that a matcher \<open>f\<close> only moves forward over a text
  of \<open>L\<close>, tracks the character before the position, and adds bindings of \<open>C\<close>, among them
  one for every group of \<open>M\<close>.
\<close>

primrec lang :: "rx \<Rightarrow> string set" where
  "lang (Lit w) = (if w = [] then {} else {w})"
| "lang (Cls P) = {[c] | c. P c}"
| "lang (Seq a b) = {u @ v | u v. u \<in> lang a \<and> v \<in> lang b}"
| "lang (Alt a b) = lang a \<union> lang b"
| "lang (Rep lo hi r) = {concat us | us. set us \<subseteq> lang r \<and> lo \<le> length us
                            \<and> (case hi of None \<Rightarrow> True | Some h \<Rightarrow> length us \<le> h)}"
| "lang (Grp n r) = lang r"
| "lang Bol = {[]}"
| "lang BolM = {[]}"
| "lang Eol = {[]}"
| "lang EolM = {[]}"
| "lang WordB = {[]}"
| "lang (Look r) = {[]}"
| "lang (NLook r) = {[]}"

primrec caps :: "rx \<Rightarrow> (nat \<times> string) set" where
  "caps (Lit w) = {}"
| "caps (Cls P) = {}"
| "caps (Seq a b) = caps a \<union> caps b"
| "caps (Alt a b) = caps a \<union> caps b"
| "caps (Rep lo hi r) = caps r"
| "caps (Grp n r) = {(n, w) | w. w \<in> lang r} \<union> caps r"
| "caps Bol = {}"
| "caps BolM = {}"
| "caps Eol = {}"
| "caps EolM = {}"
| "caps WordB = {}"
| "caps (Look r) = {}"
| "caps (NLook r) = {}"

primrec must :: "rx \<Rightarrow> nat set" where
  "must (Lit w) = {}"
| "must (Cls P) = {}"
| "must (Seq a b) = must a \<union> must b"
| "must (Alt a b) = must a \<inter> must b"
| "must (Rep lo hi r) = (if 0 < lo then must r else {})"
| "must (Grp n r) = {n} \<union> must r"
| "must Bol = {}"
| "must BolM = {}"
| "must Eol = {}"
| "must EolM = {}"
| "must WordB = {}"
| "must (Look r) = {}"
| "must (NLook r) = {}"

definition step_ok :: "string set \<Rightarrow> (nat \<times> string) set \<Rightarrow> nat set \<Rightarrow> mstate \<Rightarrow> mstate \<Rightarrow> bool" where
  "step_ok L C M s s' =
     (\<exists>u h. st_rest s = u @ st_rest s' \<and> u \<in> L
            \<and> snd (snd s') = h @ snd (snd s) \<and> set h \<subseteq> C \<and> M \<subseteq> fst ` set h
            \<and> fst s' = (if u = [] then fst s else Some (last u)))"

definition sound :: "(mstate \<Rightarrow> mstate list) \<Rightarrow> string set \<Rightarrow> (nat \<times> string) set \<Rightarrow> nat set \<Rightarrow> bool" where
  "sound f L C M = (\<forall>s s'. s' \<in> set (f s) \<longrightarrow> step_ok L C M s s')"

section \<open>Verification: basic facts\<close>

lemma lt10_cases: "k < 10 \<Longrightarrow> k \<in> {0,1,2,3,4,5,6,7,8,9::nat}"
  by auto

lemma digit_chr_is_digit: "k < 10 \<Longrightarrow> is_digit (digit_chr k)"
  by (drule lt10_cases) (auto simp: digit_chr_def is_digit_def)

lemma digit_val_digit_chr: "k < 10 \<Longrightarrow> digit_val (digit_chr k) = k"
  by (drule lt10_cases) (auto simp: digit_chr_def digit_val_def)

lemma digit_chr_zero: "k < 10 \<Longrightarrow> digit_chr k = CHR ''0'' \<Longrightarrow> k = 0"
  by (drule lt10_cases) (auto simp: digit_chr_def)

lemma str_nat_nonempty: "str_nat n \<noteq> []"
  by (subst str_nat.simps) simp

lemma str_nat_digits: "list_all is_digit (str_nat n)"
proof (induction n rule: str_nat.induct)
  case (1 n)
  then show ?case
    by (subst str_nat.simps) (simp add: digit_chr_is_digit)
qed

lemma nat_of_digits_snoc: "nat_of_digits (ds @ [c]) = 10 * nat_of_digits ds + digit_val c"
  by (simp add: nat_of_digits_def)

lemma nat_of_digits_str_nat: "nat_of_digits (str_nat n) = n"
proof (induction n rule: str_nat.induct)
  case (1 n)
  show ?case
  proof (cases "n < 10")
    case True
    then show ?thesis
      by (subst str_nat.simps) (simp add: nat_of_digits_def digit_val_digit_chr)
  next
    case False
    with "1" show ?thesis
      by (subst str_nat.simps) (simp add: nat_of_digits_snoc digit_val_digit_chr)
  qed
qed

lemma str_nat_no_leading_zero: "0 < n \<Longrightarrow> hd (str_nat n) \<noteq> CHR ''0''"
proof (induction n rule: str_nat.induct)
  case (1 n)
  show ?case
  proof (cases "n < 10")
    case True
    with "1.prems" show ?thesis
      using digit_chr_zero[of n] by (subst str_nat.simps) auto
  next
    case False
    then have "0 < n div 10" by simp
    with False "1.IH" show ?thesis
      by (subst str_nat.simps) (simp add: str_nat_nonempty)
  qed
qed

lemma str_nat_zero: "str_nat 0 = ''0''"
  by (subst str_nat.simps) (simp add: digit_chr_def)

lemma d_keys_d_set:
  "d_keys (d_set d k v) = (if k \<in> set (d_keys d) then d_keys d else d_keys d @ [k])"
  by (induction d) (force simp: d_keys_def)+

lemma distinct_d_set: "distinct (d_keys d) \<Longrightarrow> distinct (d_keys (d_set d k v))"
  by (simp add: d_keys_d_set)

lemma d_get_d_set: "d_get (d_set d k v) k' = (if k' = k then Some v else d_get d k')"
  by (induction d) (auto simp: d_get_def)

lemma d_get_None_iff: "d_get d k = None \<longleftrightarrow> k \<notin> set (d_keys d)"
  by (simp add: d_get_def d_keys_def map_of_eq_None_iff)

lemma d_at_d_set: "d_at (d_set d k v) k' = (if k' = k then v else d_at d k')"
  using d_get_d_set[of d k v k'] by (simp add: d_at_def d_get_def)

section \<open>Verification: serial inference\<close>








section \<open>Verification: the dispatcher\<close>

text \<open>
  Claim C9.  \<^verbatim>\<open>segment_cases\<close> returns the result of the tesseract, azure or paddle
  pipeline for exactly these three engine names; for every other name it raises
  \<^verbatim>\<open>ValueError\<close> and returns no mapping.
\<close>

theorem segment_cases_dispatch:
  "segment_cases text ''tesseract'' = segment_cases_tesseract text
   \<and> segment_cases text ''azure'' = Inr (segment_cases_azure text)
   \<and> segment_cases text ''paddle'' = Inr (segment_cases_paddle text)
   \<and> (engine \<notin> {''tesseract'', ''azure'', ''paddle''} \<longrightarrow>
        segment_cases text engine = Inl ValueError \<and> (\<forall>m. segment_cases text engine \<noteq> Inr m))"
  by (simp add: segment_cases_def)

theorem segment_cases_dispatch_witness:
  "''Tesseract'' \<notin> {''tesseract'', ''azure'', ''paddle''}
   \<and> segment_cases ''1 A'' ''Tesseract'' = Inl ValueError
   \<and> (\<forall>m. segment_cases ''1 A'' ''Tesseract'' \<noteq> Inr m)"
proof -
  have h: "''Tesseract'' \<notin> {''tesseract'', ''azure'', ''paddle''}" by simp
  from segment_cases_dispatch[of "''1 A''" "''Tesseract''"] h show ?thesis by blast
qed

section \<open>Verification: strings\<close>

lemma startswith_iff: "startswith s p \<longleftrightarrow> (\<exists>c. s = p @ c)"
proof
  assume "startswith s p"
  then have "s = p @ drop (length p) s"
    by (metis append_take_drop_id startswith_def)
  then show "\<exists>c. s = p @ c" ..
next
  assume "\<exists>c. s = p @ c"
  then show "startswith s p" by (auto simp: startswith_def)
qed

lemma find_from_Some_iff: "find_from sub s i \<noteq> None \<longleftrightarrow> (\<exists>a c. s = a @ sub @ c)"
proof (induction s arbitrary: i)
  case Nil
  then show ?case by auto
next
  case (Cons x xs)
  show ?case
  proof (cases "startswith (x # xs) sub")
    case True
    then obtain c where "x # xs = sub @ c" by (auto simp: startswith_iff)
    then have "x # xs = [] @ sub @ c" by simp
    with True show ?thesis by (metis find_from.simps(2) option.distinct(1))
  next
    case False
    have "(\<exists>a c. x # xs = a @ sub @ c) \<longleftrightarrow> (\<exists>a c. xs = a @ sub @ c)"
    proof
      assume "\<exists>a c. x # xs = a @ sub @ c"
      then obtain a c where ac: "x # xs = a @ sub @ c" by blast
      show "\<exists>a c. xs = a @ sub @ c"
      proof (cases a)
        case Nil
        with ac False show ?thesis by (auto simp: startswith_iff)
      next
        case (Cons y ys)
        with ac have "xs = ys @ sub @ c" by simp
        then show ?thesis by blast
      qed
    next
      assume "\<exists>a c. xs = a @ sub @ c"
      then obtain a c where "xs = a @ sub @ c" by blast
      then have "x # xs = (x # a) @ sub @ c" by simp
      then show "\<exists>a c. x # xs = a @ sub @ c" by blast
    qed
    with False Cons.IH[of "Suc i"] show ?thesis by simp
  qed
qed

lemma py_in_iff: "py_in sub s \<longleftrightarrow> (\<exists>a c. s = a @ sub @ c)"
  using find_from_Some_iff[of sub s 0] by (simp only: py_in_def py_find_def)

lemma py_in_context: "py_in sub s \<Longrightarrow> py_in sub (a @ s @ c)"
proof -
  assume "py_in sub s"
  then obtain a' c' where "s = a' @ sub @ c'" by (auto simp: py_in_iff)
  then have "a @ s @ c = (a @ a') @ sub @ (c' @ c)" by simp
  then show ?thesis unfolding py_in_iff by blast
qed

lemma py_in_self: "py_in sub (a @ sub)"
  unfolding py_in_iff by (rule exI[of _ a], rule exI[of _ "[]"]) simp

lemma dot_not_digit: "\<not> is_digit CHR ''.''"
  by (simp add: is_digit_def)

lemma digits_no_dot: "list_all is_digit k \<Longrightarrow> CHR ''.'' \<notin> set k"
  using dot_not_digit unfolding list_all_iff by blast

lemma canonical_decimal_props:
  assumes "canonical_decimal k"
  shows "k \<noteq> []" and "list_all is_digit k" and "CHR ''.'' \<notin> set k"
    and "k = ''0'' \<or> hd k \<noteq> CHR ''0''"
proof -
  define n where "n = nat_of_digits k"
  have k: "k = str_nat n"
    using assms unfolding canonical_decimal_def n_def .
  show "k \<noteq> []" unfolding k by (rule str_nat_nonempty)
  show d: "list_all is_digit k" unfolding k by (rule str_nat_digits)
  then show "CHR ''.'' \<notin> set k" by (rule digits_no_dot)
  show "k = ''0'' \<or> hd k \<noteq> CHR ''0''"
  proof (cases "n = 0")
    case True
    then show ?thesis unfolding k by (simp add: str_nat_zero)
  next
    case False
    then show ?thesis unfolding k using str_nat_no_leading_zero[of n] by simp
  qed
qed

lemma canonical_str_nat: "canonical_decimal (str_nat n)"
  by (simp add: canonical_decimal_def nat_of_digits_str_nat)

section \<open>Verification: the loops of the tesseract and azure segmenters\<close>

lemma parse_main_nonneg: "tesseract_parse_serial b = Some (main, sub) \<Longrightarrow> 0 \<le> main"
  by (auto simp: tesseract_parse_serial_def int_of_digits_def split: option.splits)

lemma main_keys_mono: "set bs \<subseteq> set bs' \<Longrightarrow> main_keys bs \<subseteq> main_keys bs'"
  by (auto simp: main_keys_def)

lemma main_keys_canonical: "k \<in> main_keys bs \<Longrightarrow> canonical_decimal k"
proof -
  assume "k \<in> main_keys bs"
  then obtain main sub b where "k = py_str main" "tesseract_parse_serial b = Some (main, sub)"
    by (auto simp: main_keys_def)
  then show ?thesis
    using parse_main_nonneg[of b main sub] canonical_str_nat[of "nat main"]
    by (simp add: py_str_def)
qed

lemma tess_step_inv:
  assumes "loop_inv st bs"
  shows "loop_inv (tess_step st b) (bs @ [strip b])"
proof -
  have mono: "main_keys bs \<subseteq> main_keys (bs @ [strip b])"
    by (rule main_keys_mono) auto
  have new: "\<And>main sub. tesseract_parse_serial (strip b) = Some (main, sub)
      \<Longrightarrow> py_str main \<in> main_keys (bs @ [strip b])"
    by (auto simp: main_keys_def)
  show ?thesis
    using assms mono new
    by (cases st)
       (auto simp: tess_step_def loop_inv_def Let_def d_keys_d_set
             split: option.splits prod.splits if_splits)
qed

lemma tess_fold_inv:
  "loop_inv st done \<Longrightarrow> loop_inv (foldl tess_step st bs) (done @ map strip bs)"
proof (induction bs arbitrary: st "done")
  case Nil
  then show ?case by simp
next
  case (Cons b bs)
  from tess_step_inv[OF Cons.prems, of b]
  have "loop_inv (foldl tess_step (tess_step st b) bs) ((done @ [strip b]) @ map strip bs)"
    by (rule Cons.IH)
  then show ?case by simp
qed

lemma parse_empty: "tesseract_parse_serial [] = None"
  by code_simp

lemma parse_Some_nonempty: "tesseract_parse_serial b = Some x \<Longrightarrow> b \<noteq> []"
  using parse_empty by auto

lemma main_keys_filter: "main_keys (filter (\<lambda>b. b \<noteq> []) bs) = main_keys bs"
proof
  show "main_keys (filter (\<lambda>b. b \<noteq> []) bs) \<subseteq> main_keys bs"
    by (rule main_keys_mono) auto
  show "main_keys bs \<subseteq> main_keys (filter (\<lambda>b. b \<noteq> []) bs)"
  proof
    fix k assume "k \<in> main_keys bs"
    then obtain main sub b where *: "k = py_str main" "b \<in> set bs"
        "tesseract_parse_serial b = Some (main, sub)"
      by (auto simp: main_keys_def)
    then have "b \<in> set (filter (\<lambda>b. b \<noteq> []) bs)"
      using parse_Some_nonempty[of b] by simp
    with * show "k \<in> main_keys (filter (\<lambda>b. b \<noteq> []) bs)"
      unfolding main_keys_def by blast
  qed
qed

lemma tess_fold_keys:
  "loop_inv (foldl tess_step ([], None) (re_split TESSERACT_SPLIT_RE text)) (candidate_blocks text)"
  using tess_fold_inv[of "([], None)" "[]" "re_split TESSERACT_SPLIT_RE text"]
  by (simp add: loop_inv_def d_keys_def candidate_blocks_def main_keys_filter)

lemma tess_step_orphan:
  "strip b = [] \<or> tesseract_parse_serial (strip b) = None \<Longrightarrow> tess_step (cs, None) b = (cs, None)"
  by (auto simp: tess_step_def Let_def)

lemma tess_fold_orphans:
  "\<forall>b\<in>set bs. strip b = [] \<or> tesseract_parse_serial (strip b) = None
     \<Longrightarrow> foldl tess_step (cs, None) bs = (cs, None)"
  by (induction bs) (simp_all add: tess_step_orphan)

lemma classify_append: "classify (a @ b) = classify a @ classify b"
  by (simp add: classify_def)

lemma azure_step_inv:
  assumes "loop_inv st bs"
    and "c = (case tesseract_parse_serial b of None \<Rightarrow> (None, None, b)
                                             | Some (main, sub) \<Rightarrow> (Some main, sub, b))"
  shows "loop_inv (azure_step st c) (bs @ [b])"
proof -
  have mono: "main_keys bs \<subseteq> main_keys (bs @ [b])"
    by (rule main_keys_mono) auto
  have new: "\<And>main sub. tesseract_parse_serial b = Some (main, sub)
      \<Longrightarrow> py_str main \<in> main_keys (bs @ [b])"
    by (auto simp: main_keys_def)
  show ?thesis
    using assms mono new
    by (cases st)
       (auto simp: azure_step_def loop_inv_def Let_def d_keys_d_set
             split: option.splits prod.splits if_splits)
qed

lemma azure_fold_inv:
  "loop_inv st done \<Longrightarrow>
   loop_inv (foldl azure_step st
              (map (\<lambda>block. case tesseract_parse_serial block of
                        None \<Rightarrow> (None, None, block)
                      | Some (main, sub) \<Rightarrow> (Some main, sub, block)) bs))
            (done @ bs)"
proof (induction bs arbitrary: st "done")
  case Nil
  then show ?case by simp
next
  case (Cons b bs)
  from azure_step_inv[OF Cons.prems refl, of b]
  have "loop_inv (foldl azure_step
           (azure_step st (case tesseract_parse_serial b of None \<Rightarrow> (None, None, b)
                              | Some (main, sub) \<Rightarrow> (Some main, sub, b)))
           (map (\<lambda>block. case tesseract_parse_serial block of
                        None \<Rightarrow> (None, None, block)
                      | Some (main, sub) \<Rightarrow> (Some main, sub, block)) bs))
         ((done @ [b]) @ bs)"
    by (rule Cons.IH)
  then show ?case by simp
qed

lemma azure_merge_inv:
  "loop_inv (foldl azure_step ([], None) (classify (re_split TESSERACT_SPLIT_RE text)))
            (candidate_blocks text)"
  using azure_fold_inv[of "([], None)" "[]" "candidate_blocks text"]
  by (simp add: loop_inv_def d_keys_def candidate_blocks_def classify_def)

lemma azure_step_orphan:
  "azure_step (cs, None) (None, x, blk) = (cs, None)"
  by (simp add: azure_step_def)

lemma azure_fold_orphans:
  "\<forall>c\<in>set cls. fst c = None \<Longrightarrow> foldl azure_step (cs, None) cls = (cs, None)"
proof (induction cls)
  case Nil
  then show ?case by simp
next
  case (Cons c cls)
  then obtain x blk where "c = (None, x, blk)" by (cases c) auto
  with Cons show ?case by (simp add: azure_step_orphan)
qed

lemma classify_orphans:
  "\<forall>b\<in>set (filter (\<lambda>b. b \<noteq> []) (map strip raws)). tesseract_parse_serial b = None
     \<Longrightarrow> \<forall>c\<in>set (classify raws). fst c = None"
  by (auto simp: classify_def)

section \<open>Verification: blob redistribution keeps the keys\<close>

lemma d_keys_d_set_present: "k \<in> set (d_keys d) \<Longrightarrow> d_keys (d_set d k v) = d_keys d"
  by (simp add: d_keys_d_set)

lemma give_to_stub_keys:
  "fst kb \<in> set (d_keys result) \<Longrightarrow> d_keys (give_to_stub result kb) = d_keys result"
  by (simp add: give_to_stub_def Let_def d_keys_d_set_present split: option.splits)

lemma give_fold_keys:
  "\<forall>kb\<in>set kbs. fst kb \<in> set (d_keys result)
     \<Longrightarrow> d_keys (foldl give_to_stub result kbs) = d_keys result"
proof (induction kbs arbitrary: result)
  case Nil
  then show ?case by simp
next
  case (Cons kb kbs)
  then have "d_keys (give_to_stub result kb) = d_keys result"
    by (simp add: give_to_stub_keys)
  with Cons show ?case by simp
qed

lemma redistribute_run_keys:
  assumes "set stub_run \<subseteq> set (d_keys result)" and "owner \<in> set (d_keys result)"
  shows "d_keys (redistribute_run result stub_run owner) = d_keys result"
proof -
  have "\<And>bs. \<forall>kb\<in>set (zip stub_run bs). fst kb \<in> set (d_keys result)"
    using assms(1) by (auto dest: set_zip_leftD)
  then have "\<And>bs. d_keys (foldl give_to_stub result (zip stub_run bs)) = d_keys result"
    by (rule give_fold_keys)
  with assms(2) show ?thesis
    by (simp add: redistribute_run_def Let_def d_keys_d_set_present split: option.splits)
qed

lemma redistribute_loop_keys:
  "set all_keys \<subseteq> set (d_keys result)
     \<Longrightarrow> d_keys (redistribute_loop all_keys i result) = d_keys result"
proof (induction all_keys i result rule: redistribute_loop.induct)
  case (1 all_keys i result)
  show ?case
  proof (cases "i < length all_keys")
    case False
    then show ?thesis by (subst redistribute_loop.simps) simp
  next
    case in_range: True
    show ?thesis
    proof (cases "is_stub result (all_keys ! i)")
      case False
      with in_range "1.IH"(1) "1.prems" show ?thesis
        by (subst redistribute_loop.simps) simp
    next
      case stub: True
      define stub_run where "stub_run = takeWhile (is_stub result) (drop i all_keys)"
      define j where "j = i + length stub_run"
      show ?thesis
      proof (cases "length all_keys \<le> j")
        case True
        with in_range stub "1.IH"(2)[OF in_range _ stub_run_def j_def] "1.prems" show ?thesis
          by (subst redistribute_loop.simps) (simp add: Let_def stub_run_def j_def)
      next
        case False
        have sub: "set stub_run \<subseteq> set (d_keys result)"
          using "1.prems" set_takeWhileD[of _ "is_stub result" "drop i all_keys"]
                in_set_dropD[of _ i all_keys]
          unfolding stub_run_def by blast
        have own: "all_keys ! j \<in> set (d_keys result)"
          using "1.prems" False by (auto simp: subset_iff)
        have keys: "d_keys (redistribute_run result stub_run (all_keys ! j)) = d_keys result"
          using sub own by (rule redistribute_run_keys)
        have "d_keys (redistribute_loop all_keys (j + 1)
                        (redistribute_run result stub_run (all_keys ! j)))
              = d_keys (redistribute_run result stub_run (all_keys ! j))"
          using "1.IH"(3)[OF in_range _ stub_run_def j_def False] stub "1.prems" keys by simp
        with in_range stub False keys show ?thesis
          by (subst redistribute_loop.simps) (simp add: Let_def stub_run_def j_def)
      qed
    qed
  qed
qed

lemma set_sorted_keys: "set (sorted_keys cases) = set (d_keys cases)"
  by (simp add: sorted_keys_def)

lemma azure_redistribute_keys: "d_keys (azure_redistribute_blobs cases) = d_keys cases"
  by (simp add: azure_redistribute_blobs_def redistribute_loop_keys set_sorted_keys)

lemma azure_redistribute_empty: "azure_redistribute_blobs [] = []"
  by (simp add: azure_redistribute_blobs_def sorted_keys_def d_keys_def redistribute_loop.simps)

section \<open>Verification: what a match consumes and captures\<close>

lemma soundI: "(\<And>s s'. s' \<in> set (f s) \<Longrightarrow> step_ok L C M s s') \<Longrightarrow> sound f L C M"
  unfolding sound_def by blast

lemma soundD: "sound f L C M \<Longrightarrow> s' \<in> set (f s) \<Longrightarrow> step_ok L C M s s'"
  unfolding sound_def by blast

lemma step_ok_refl: "[] \<in> L \<Longrightarrow> M = {} \<Longrightarrow> step_ok L C M s s"
  unfolding step_ok_def by (rule exI[of _ "[]"], rule exI[of _ "[]"]) simp

lemma step_ok_trans:
  assumes "step_ok L1 C1 M1 s s1" and "step_ok L2 C2 M2 s1 s2"
  shows "step_ok {u @ v | u v. u \<in> L1 \<and> v \<in> L2} (C1 \<union> C2) (M1 \<union> M2) s s2"
proof -
  from assms(1) obtain u h where 1: "st_rest s = u @ st_rest s1" "u \<in> L1"
      "snd (snd s1) = h @ snd (snd s)" "set h \<subseteq> C1" "M1 \<subseteq> fst ` set h"
      "fst s1 = (if u = [] then fst s else Some (last u))"
    unfolding step_ok_def by blast
  from assms(2) obtain v k where 2: "st_rest s1 = v @ st_rest s2" "v \<in> L2"
      "snd (snd s2) = k @ snd (snd s1)" "set k \<subseteq> C2" "M2 \<subseteq> fst ` set k"
      "fst s2 = (if v = [] then fst s1 else Some (last v))"
    unfolding step_ok_def by blast
  have a: "st_rest s = (u @ v) @ st_rest s2" using 1 2 by simp
  have b: "snd (snd s2) = (k @ h) @ snd (snd s)" using 1 2 by simp
  have c: "set (k @ h) \<subseteq> C1 \<union> C2" using 1 2 by auto
  have d: "M1 \<union> M2 \<subseteq> fst ` set (k @ h)" using 1 2 by auto
  have e: "fst s2 = (if u @ v = [] then fst s else Some (last (u @ v)))" using 1 2 by simp
  have f: "u @ v \<in> {u @ v | u v. u \<in> L1 \<and> v \<in> L2}" using 1 2 by blast
  show ?thesis
    unfolding step_ok_def using a b c d e f by blast
qed

lemma step_ok_weaken:
  "step_ok L C M s s' \<Longrightarrow> L \<subseteq> L' \<Longrightarrow> C \<subseteq> C' \<Longrightarrow> M' \<subseteq> M \<Longrightarrow> step_ok L' C' M' s s'"
  unfolding step_ok_def by (elim exE conjE, intro exI conjI) (assumption | blast)+

lemma step_ok_shorter: "step_ok L C M s s' \<Longrightarrow> length (st_rest s') \<le> length (st_rest s)"
  unfolding step_ok_def by auto

lemma step_ok_rep_stop:
  "step_ok {concat us | us. set us \<subseteq> L \<and> 0 \<le> length us
                     \<and> (case hi of None \<Rightarrow> True | Some h \<Rightarrow> length us \<le> h)}
           C (if 0 < (0::nat) then M else {}) s s"
proof (rule step_ok_refl)
  show "[] \<in> {concat us | us. set us \<subseteq> L \<and> 0 \<le> length us
                     \<and> (case hi of None \<Rightarrow> True | Some h \<Rightarrow> length us \<le> h)}"
    by (intro CollectI exI[of _ "[]"]) (simp split: option.splits)
qed simp

lemma rep_iter_sound:
  assumes f: "sound f L C M"
  shows "s' \<in> set (rep_iter f lo hi fuel s) \<Longrightarrow>
         step_ok {concat us | us. set us \<subseteq> L \<and> lo \<le> length us
                     \<and> (case hi of None \<Rightarrow> True | Some h \<Rightarrow> length us \<le> h)}
                 C (if 0 < lo then M else {}) s s'"
proof (induction fuel arbitrary: lo hi s)
  case 0
  then have "lo = 0" "s' = s" by (auto split: if_splits)
  then show ?case
    using step_ok_rep_stop[of L hi C M s] by simp
next
  case (Suc fuel)
  let ?L = "\<lambda>lo hi. {concat us | us. set us \<subseteq> L \<and> lo \<le> length us
                     \<and> (case hi of None \<Rightarrow> True | Some h \<Rightarrow> length us \<le> h)}"
  from Suc.prems consider
      (more) s1 where "hi \<noteq> Some 0" "s1 \<in> set (f s)"
                      "s' \<in> set (rep_iter f (lo - 1) (map_option (\<lambda>h. h - 1) hi) fuel s1)"
    | (stop) "lo = 0" "s' = s"
    by (auto split: if_splits)
  then show ?case
  proof cases
    case stop
    then show ?thesis
      using step_ok_rep_stop[of L hi C M s] by simp
  next
    case more
    have 1: "step_ok L C M s s1" using f more(2) by (rule soundD)
    have 2: "step_ok (?L (lo - 1) (map_option (\<lambda>h. h - 1) hi)) C (if 0 < lo - 1 then M else {}) s1 s'"
      using more(3) by (rule Suc.IH)
    have 3: "step_ok {u @ v | u v. u \<in> L \<and> v \<in> ?L (lo - 1) (map_option (\<lambda>h. h - 1) hi)}
                     (C \<union> C) (M \<union> (if 0 < lo - 1 then M else {})) s s'"
      using 1 2 by (rule step_ok_trans)
    have sub: "{u @ v | u v. u \<in> L \<and> v \<in> ?L (lo - 1) (map_option (\<lambda>h. h - 1) hi)} \<subseteq> ?L lo hi"
    proof
      fix w assume "w \<in> {u @ v | u v. u \<in> L \<and> v \<in> ?L (lo - 1) (map_option (\<lambda>h. h - 1) hi)}"
      then obtain u us where w: "w = u @ concat us" "u \<in> L" "set us \<subseteq> L" "lo - 1 \<le> length us"
          "(case map_option (\<lambda>h. h - 1) hi of None \<Rightarrow> True | Some h \<Rightarrow> length us \<le> h)"
        by blast
      have "w = concat (u # us)" using w by simp
      moreover have "set (u # us) \<subseteq> L" using w by simp
      moreover have "lo \<le> length (u # us)" using w by simp
      moreover have "(case hi of None \<Rightarrow> True | Some h \<Rightarrow> length (u # us) \<le> h)"
        using w(5) more(1) by (cases hi) auto
      ultimately show "w \<in> ?L lo hi" by blast
    qed
    show ?thesis
      using 3 sub by (rule step_ok_weaken) auto
  qed
qed

lemma sound_Seq:
  assumes "sound f L1 C1 M1" and "sound g L2 C2 M2"
  shows "sound (\<lambda>s. concat (map g (f s))) {u @ v | u v. u \<in> L1 \<and> v \<in> L2} (C1 \<union> C2) (M1 \<union> M2)"
proof (rule soundI)
  fix s s' assume "s' \<in> set (concat (map g (f s)))"
  then obtain s1 where "s1 \<in> set (f s)" "s' \<in> set (g s1)" by auto
  then have "step_ok L1 C1 M1 s s1" "step_ok L2 C2 M2 s1 s'"
    using assms by (auto dest: soundD)
  then show "step_ok {u @ v | u v. u \<in> L1 \<and> v \<in> L2} (C1 \<union> C2) (M1 \<union> M2) s s'"
    by (rule step_ok_trans)
qed

lemma sound_Alt:
  assumes "sound f L1 C1 M1" and "sound g L2 C2 M2"
  shows "sound (\<lambda>s. f s @ g s) (L1 \<union> L2) (C1 \<union> C2) (M1 \<inter> M2)"
proof (rule soundI)
  fix s s' assume "s' \<in> set (f s @ g s)"
  then consider "s' \<in> set (f s)" | "s' \<in> set (g s)" by auto
  then show "step_ok (L1 \<union> L2) (C1 \<union> C2) (M1 \<inter> M2) s s'"
  proof cases
    case 1
    then have "step_ok L1 C1 M1 s s'" using assms(1) by (rule soundD[rotated])
    then show ?thesis by (rule step_ok_weaken) auto
  next
    case 2
    then have "step_ok L2 C2 M2 s s'" using assms(2) by (rule soundD[rotated])
    then show ?thesis by (rule step_ok_weaken) auto
  qed
qed

lemma sound_Grp:
  assumes "sound f L C M"
  shows "sound (\<lambda>(p, t, g). map (\<lambda>(p', t', g'). (p', t', (n, take (length t - length t') t) # g')) (f (p, t, g)))
               L ({(n, w) | w. w \<in> L} \<union> C) ({n} \<union> M)"
proof (rule soundI)
  fix s s' :: mstate
  obtain p t g where s: "s = (p, t, g)" by (cases s)
  assume "s' \<in> set ((\<lambda>(p, t, g). map (\<lambda>(p', t', g'). (p', t', (n, take (length t - length t') t) # g')) (f (p, t, g))) s)"
  then obtain p' t' g' where in_f: "(p', t', g') \<in> set (f (p, t, g))"
      and s': "s' = (p', t', (n, take (length t - length t') t) # g')"
    unfolding s by auto
  from assms in_f have "step_ok L C M (p, t, g) (p', t', g')" by (rule soundD)
  then obtain u h where *: "t = u @ t'" "u \<in> L" "g' = h @ g" "set h \<subseteq> C" "M \<subseteq> fst ` set h"
      "p' = (if u = [] then p else Some (last u))"
    unfolding step_ok_def st_rest_def by auto
  have tk: "take (length t - length t') t = u" using *(1) by simp
  show "step_ok L ({(n, w) | w. w \<in> L} \<union> C) ({n} \<union> M) s s'"
    unfolding step_ok_def s s' st_rest_def tk
    apply (rule exI[of _ u], rule exI[of _ "(n, u) # h"])
    using * by auto
qed

lemma ms_sound: "sound (ms r) (lang r) (caps r) (must r)"
proof (induction r)
  case (Lit w)
  show ?case
  proof (rule soundI)
    fix s s' :: mstate assume a: "s' \<in> set (ms (Lit w) s)"
    obtain p t g where s: "s = (p, t, g)" by (cases s)
    from a s have w: "w \<noteq> []" "take (length w) t = w" "s' = (Some (last w), drop (length w) t, g)"
      by (auto split: if_splits)
    then have "t = w @ drop (length w) t" by (metis append_take_drop_id)
    with w show "step_ok (lang (Lit w)) (caps (Lit w)) (must (Lit w)) s s'"
      unfolding step_ok_def s st_rest_def
      by (intro exI[of _ w] exI[of _ "[]"]) simp
  qed
next
  case (Cls P)
  show ?case
  proof (rule soundI)
    fix s s' :: mstate assume a: "s' \<in> set (ms (Cls P) s)"
    obtain p t g where s: "s = (p, t, g)" by (cases s)
    from a s obtain c cs where "t = c # cs" "P c" "s' = (Some c, cs, g)"
      by (auto split: list.splits if_splits)
    then show "step_ok (lang (Cls P)) (caps (Cls P)) (must (Cls P)) s s'"
      unfolding step_ok_def s st_rest_def
      by (intro exI[of _ "[c]"] exI[of _ "[]"]) simp
  qed
next
  case (Seq a b)
  then show ?case using sound_Seq[of "ms a" _ _ _ "ms b"] by simp
next
  case (Alt a b)
  then show ?case using sound_Alt[of "ms a" _ _ _ "ms b"] by simp
next
  case (Rep lo hi r)
  show ?case
  proof (rule soundI)
    fix s s' :: mstate assume "s' \<in> set (ms (Rep lo hi r) s)"
    then have "s' \<in> set (rep_iter (ms r) lo hi (length (st_rest s)) s)" by simp
    from rep_iter_sound[OF Rep this]
    show "step_ok (lang (Rep lo hi r)) (caps (Rep lo hi r)) (must (Rep lo hi r)) s s'" by simp
  qed
next
  case (Grp n r)
  then show ?case using sound_Grp[of "ms r" _ _ _ n] by simp
next
  case Bol
  show ?case by (rule soundI) (auto split: if_splits intro!: step_ok_refl)
next
  case BolM
  show ?case by (rule soundI) (auto split: if_splits intro!: step_ok_refl)
next
  case Eol
  show ?case by (rule soundI) (auto split: if_splits intro!: step_ok_refl)
next
  case EolM
  show ?case
  proof (rule soundI)
    fix s s' :: mstate assume a: "s' \<in> set (ms EolM s)"
    obtain p t g where s: "s = (p, t, g)" by (cases s)
    from a s have "s' = s" by (cases t) (auto split: if_splits)
    then show "step_ok (lang EolM) (caps EolM) (must EolM) s s'"
      by (simp add: step_ok_refl)
  qed
next
  case WordB
  show ?case by (rule soundI) (auto split: if_splits intro!: step_ok_refl)
next
  case (Look r)
  show ?case by (rule soundI) (auto split: if_splits intro!: step_ok_refl)
next
  case (NLook r)
  show ?case by (rule soundI) (auto split: if_splits intro!: step_ok_refl)
qed

lemma scan_sound:
  "m \<in> set (scan r ma p t off) \<Longrightarrow>
   \<exists>a t0 s'. t = a @ t0 \<and> s' \<in> set (ms r ((if a = [] then p else Some (last a)), t0, []))
     \<and> m = (off + length a, off + length a + (length t0 - length (st_rest s')), snd (snd s'))"
proof (induction r ma p t off rule: scan.induct)
  case (1 r ma p t off)
  let ?cands = "filter (\<lambda>s'. \<not> ma \<or> length (st_rest s') < length t) (ms r (p, t, []))"
  show ?case
  proof (cases ?cands)
    case Nil
    show ?thesis
    proof (cases t)
      case Nil2: Nil
      with Nil "1.prems" show ?thesis by (subst (asm) scan.simps) simp
    next
      case (Cons c cs)
      with Nil "1.prems" have "m \<in> set (scan r False (Some c) cs (Suc off))"
        by (subst (asm) scan.simps) simp
      from "1.IH"(1)[OF Nil Cons this] obtain a t0 s' where
        *: "cs = a @ t0" "s' \<in> set (ms r ((if a = [] then Some c else Some (last a)), t0, []))"
           "m = (Suc off + length a, Suc off + length a + (length t0 - length (st_rest s')), snd (snd s'))"
        by blast
      show ?thesis
        apply (rule exI[of _ "c # a"], rule exI[of _ t0], rule exI[of _ s'])
        using * Cons by (cases "a = []") simp_all
    qed
  next
    case (Cons s1 rest)
    obtain p' t' g where s1: "s1 = (p', t', g)" by (cases s1)
    have "s1 \<in> set (filter (\<lambda>s'. \<not> ma \<or> length (st_rest s') < length t) (ms r (p, t, [])))"
      unfolding Cons by simp
    then have in_ms: "s1 \<in> set (ms r (p, t, []))"
      by simp
    show ?thesis
    proof (cases "length t' < length t")
      case True
      with Cons s1 "1.prems" consider
          "m = (off, off + (length t - length t'), g)"
        | "m \<in> set (scan r False p' t' (off + (length t - length t')))"
        by (subst (asm) scan.simps) auto
      then show ?thesis
      proof cases
        case 1
        show ?thesis
          apply (rule exI[of _ "[]"], rule exI[of _ t], rule exI[of _ s1])
          using 1 in_ms s1 by (simp add: st_rest_def)
      next
        case 2
        from "1.IH"(2)[OF Cons s1[symmetric] refl True 2] obtain a t0 s' where
          *: "t' = a @ t0" "s' \<in> set (ms r ((if a = [] then p' else Some (last a)), t0, []))"
             "m = (off + (length t - length t') + length a,
                   off + (length t - length t') + length a + (length t0 - length (st_rest s')),
                   snd (snd s'))"
          by blast
        from ms_sound in_ms have "step_ok (lang r) (caps r) (must r) (p, t, []) s1"
          by (rule soundD)
        then obtain u where u: "t = u @ t'" "p' = (if u = [] then p else Some (last u))"
          unfolding step_ok_def s1 st_rest_def by auto
        have une: "u \<noteq> []" using u(1) True by auto
        show ?thesis
          apply (rule exI[of _ "u @ a"], rule exI[of _ t0], rule exI[of _ s'])
          using * u une by (cases "a = []") simp_all
      qed
    next
      case False
      show ?thesis
      proof (cases ma)
        case True
        with False Cons s1 "1.prems" show ?thesis
          by (subst (asm) scan.simps) simp
      next
        case nma: False
        with False Cons s1 "1.prems" consider
            "m = (off, off, g)" | "m \<in> set (scan r True p t off)"
          by (subst (asm) scan.simps) auto
        then show ?thesis
        proof cases
          case 1
          from ms_sound in_ms have "step_ok (lang r) (caps r) (must r) (p, t, []) s1"
            by (rule soundD)
          then have "length t' \<le> length t"
            using step_ok_shorter[of _ _ _ "(p, t, [])" s1] by (simp add: s1 st_rest_def)
          with False have "length t - length t' = 0" by simp
          then show ?thesis
            apply -
            apply (rule exI[of _ "[]"], rule exI[of _ t], rule exI[of _ s1])
            using 1 in_ms s1 by (simp add: st_rest_def)
        next
          case 2
          from "1.IH"(3)[OF Cons s1[symmetric] refl False nma 2] show ?thesis .
        qed
      qed
    qed
  qed
qed

lemma groups_of_step:
  assumes "step_ok L C M (p, t, []) s'" and "n \<in> M"
  shows "\<exists>w. map_of (snd (snd s')) n = Some w \<and> (n, w) \<in> C"
proof -
  from assms(1) obtain h where h: "snd (snd s') = h" "set h \<subseteq> C" "M \<subseteq> fst ` set h"
    unfolding step_ok_def by auto
  with assms(2) have "n \<in> fst ` set h" by blast
  then obtain w where w: "map_of h n = Some w"
    by (metis domD dom_map_of_conv_image_fst)
  then have "(n, w) \<in> set h" by (rule map_of_SomeD)
  with h w show ?thesis by auto
qed

lemma finditer_group:
  assumes "m \<in> set (re_finditer r text)" and "n \<in> must r"
  shows "\<exists>w. m_group m n = Some w \<and> (n, w) \<in> caps r"
proof -
  have "m \<in> set (scan r False None text 0)"
    using assms(1) unfolding re_finditer_def .
  from scan_sound[OF this] obtain a t0 s' where
    **: "s' \<in> set (ms r ((if a = [] then None else Some (last a)), t0, []))"
        "m = (0 + length a, 0 + length a + (length t0 - length (st_rest s')), snd (snd s'))"
    by blast
  have *: "s' \<in> set (ms r ((if a = [] then None else Some (last a)), t0, []))"
       "snd (snd m) = snd (snd s')"
    using ** by simp_all
  from ms_sound *(1) have "step_ok (lang r) (caps r) (must r) ((if a = [] then None else Some (last a)), t0, []) s'"
    by (rule soundD)
  from groups_of_step[OF this assms(2)] *(2) show ?thesis
    by (simp add: m_group_def)
qed

lemma match_sound:
  assumes "re_match r text = Some m"
  shows "\<exists>s'. s' \<in> set (ms r (None, text, [])) \<and> snd (snd m) = snd (snd s')
            \<and> m_end m = length text - length (st_rest s')"
proof -
  from assms obtain p t g rest where
    *: "ms r (None, text, []) = (p, t, g) # rest" "m = (0, length text - length t, g)"
    by (auto simp: re_match_def split: list.splits)
  show ?thesis
    apply (rule exI[of _ "(p, t, g)"])
    using * by (simp add: m_end_def st_rest_def)
qed

lemma match_group:
  assumes "re_match r text = Some m" and "n \<in> must r"
  shows "\<exists>w. m_group m n = Some w \<and> (n, w) \<in> caps r"
proof -
  from match_sound[OF assms(1)] obtain s' where
    *: "s' \<in> set (ms r (None, text, []))" "snd (snd m) = snd (snd s')" by blast
  from ms_sound *(1) have "step_ok (lang r) (caps r) (must r) (None, text, []) s'"
    by (rule soundD)
  from groups_of_step[OF this assms(2)] *(2) show ?thesis
    by (simp add: m_group_def)
qed

lemma match_prefix:
  assumes "re_match r text = Some m"
  shows "\<exists>u c. text = u @ c \<and> u \<in> lang r"
proof -
  from match_sound[OF assms(1)] obtain s' where
    *: "s' \<in> set (ms r (None, text, []))" by blast
  from ms_sound * have "step_ok (lang r) (caps r) (must r) (None, text, []) s'"
    by (rule soundD)
  then show ?thesis unfolding step_ok_def st_rest_def by auto
qed

end
